theory Spec2Isabelle
  imports Main "HOL-Library.Word" "HOL-Library.AList"
begin

section \<open>Timestamps\<close>

text \<open>
  \<^verbatim>\<open>Timestamp\<close> wraps an unsigned 64-bit \<^verbatim>\<open>val_type\<close>; comparison is the unsigned order
  and \<^verbatim>\<open>timestamp.value() + 1\<close> wraps around.
\<close>

type_synonym val_type = "64 word"

text \<open>
  The sentinels \<^verbatim>\<open>Timestamp::kMin\<close>, \<^verbatim>\<open>Timestamp::kMax\<close> and \<^verbatim>\<open>Timestamp::kInitialTimestamp\<close>
  are defined in \<^verbatim>\<open>kudu/common/timestamp.h\<close>, which is not among the sources. The spec names them
  \<^verbatim>\<open>MIN\<close>, \<^verbatim>\<open>MAX\<close> and \<^verbatim>\<open>INITIAL\<close>; \<^verbatim>\<open>mvcc-test.cc\<close> fixes their values.
\<close>

text \<open>
  Modelled from the spec: \<^verbatim>\<open>MIN\<close>, the least timestamp. \<^verbatim>\<open>StartOp(Timestamp(1))\<close> succeeds on a
  fresh manager, whose lower bound is \<^verbatim>\<open>kMin\<close>, so \<^verbatim>\<open>kMin\<close> is below 1.
\<close>

definition kMin :: val_type where
  "kMin = 0"

text \<open>Modelled from the spec: \<^verbatim>\<open>MAX\<close>, the greatest 64-bit timestamp.\<close>

definition kMax :: val_type where
  "kMax = - 1"

text \<open>
  Modelled from the spec: \<^verbatim>\<open>INITIAL\<close>. A fresh manager's snapshot prints as \<^verbatim>\<open>T < 1\<close> in the
  tests and in the spec's first scenario, so the value is 1.
\<close>

definition kInitialTimestamp :: val_type where
  "kInitialTimestamp = 1"

section \<open>MvccSnapshot\<close>

record MvccSnapshot =
  all_committed_before :: val_type
  none_committed_at_or_after :: val_type
  committed_timestamps :: "val_type list"

text \<open>\<^verbatim>\<open>MvccSnapshot::MvccSnapshot()\<close> and \<^verbatim>\<open>MvccSnapshot::MvccSnapshot(const Timestamp&)\<close>.\<close>

definition MvccSnapshot_at :: "val_type \<Rightarrow> MvccSnapshot" where
  "MvccSnapshot_at t =
     \<lparr>all_committed_before = t, none_committed_at_or_after = t, committed_timestamps = []\<rparr>"

definition MvccSnapshot_empty :: MvccSnapshot where
  "MvccSnapshot_empty = MvccSnapshot_at kInitialTimestamp"

text \<open>\<^verbatim>\<open>MvccSnapshot::IsCommittedFallback\<close>: the linear scan of the explicit set.\<close>

fun IsCommittedFallback_scan :: "val_type list \<Rightarrow> val_type \<Rightarrow> bool" where
  "IsCommittedFallback_scan [] t = False"
| "IsCommittedFallback_scan (v # vs) t = (if v = t then True else IsCommittedFallback_scan vs t)"

definition IsCommittedFallback :: "MvccSnapshot \<Rightarrow> val_type \<Rightarrow> bool" where
  "IsCommittedFallback snap t = IsCommittedFallback_scan (committed_timestamps snap) t"

text \<open>
  Modelled from the spec: \<^verbatim>\<open>MvccSnapshot::IsCommitted\<close> is an inline member declared in
  \<^verbatim>\<open>mvcc.h\<close>, which is not among the sources. The spec: "true iff \<^verbatim>\<open>t < all_committed_before\<close>,
  else iff \<^verbatim>\<open>t\<close> appears in \<^verbatim>\<open>committed_timestamps\<close>".
\<close>

definition IsCommitted :: "MvccSnapshot \<Rightarrow> val_type \<Rightarrow> bool" where
  "IsCommitted snap t =
     (if t < all_committed_before snap then True else IsCommittedFallback snap t)"

definition MayHaveCommittedOpsAtOrAfter :: "MvccSnapshot \<Rightarrow> val_type \<Rightarrow> bool" where
  "MayHaveCommittedOpsAtOrAfter snap t = (t < none_committed_at_or_after snap)"

definition MayHaveUncommittedOpsAtOrBefore :: "MvccSnapshot \<Rightarrow> val_type \<Rightarrow> bool" where
  "MayHaveUncommittedOpsAtOrBefore snap t =
     (all_committed_before snap < t \<or>
      (t = all_committed_before snap \<and> \<not> IsCommittedFallback snap t))"

text \<open>
  \<^verbatim>\<open>MvccSnapshot::AddCommittedTimestamp\<close>. The new upper watermark is
  \<^verbatim>\<open>timestamp.value() + 1\<close> in 64-bit unsigned arithmetic.
\<close>

definition AddCommittedTimestamp :: "MvccSnapshot \<Rightarrow> val_type \<Rightarrow> MvccSnapshot" where
  "AddCommittedTimestamp snap t =
     (if IsCommitted snap t then snap
      else
        let snap1 = snap\<lparr>committed_timestamps := committed_timestamps snap @ [t]\<rparr>
        in if none_committed_at_or_after snap1 \<le> t
           then snap1\<lparr>none_committed_at_or_after := t + 1\<rparr>
           else snap1)"

text \<open>
  \<^verbatim>\<open>FilterTimestamps\<close>: the in-place compaction of the vector. \<^verbatim>\<open>i\<close> is the position of the
  range-for, \<^verbatim>\<open>j\<close> the write position; the final \<^verbatim>\<open>resize(j)\<close> keeps the first \<^verbatim>\<open>j\<close> slots.
\<close>

function FilterTimestamps_loop :: "val_type list \<Rightarrow> nat \<Rightarrow> nat \<Rightarrow> val_type \<Rightarrow> val_type list" where
  "FilterTimestamps_loop v i j watermark =
     (if i < length v
      then (if watermark \<le> v ! i
            then FilterTimestamps_loop (v[j := v ! i]) (Suc i) (Suc j) watermark
            else FilterTimestamps_loop v (Suc i) j watermark)
      else take j v)"
  by pat_completeness auto
termination
  by (relation "measure (\<lambda>(v, i, j, w). length v - i)") auto

declare FilterTimestamps_loop.simps [simp del]

definition FilterTimestamps :: "val_type list \<Rightarrow> val_type \<Rightarrow> val_type list" where
  "FilterTimestamps v watermark = FilterTimestamps_loop v 0 0 watermark"

section \<open>MvccManager\<close>

datatype TxnState = RESERVED | APPLYING

datatype WaitFor = ALL_COMMITTED | NONE_APPLYING

text \<open>
  A waiter record. The latch lives on the waiting thread's stack; here it is named by a number,
  and the manager state records which latches have been counted down.
\<close>

record WaitingState =
  timestamp :: val_type
  latch :: nat
  wait_for :: WaitFor

text \<open>
  The in-flight table is a hash map from timestamp values to states: an association list
  whose keys are kept distinct by \<^verbatim>\<open>InsertIfNotPresent\<close>. The fields carry the source's names
  without the trailing underscore; \<^verbatim>\<open>open_\<close> is \<^verbatim>\<open>is_open\<close>. \<^verbatim>\<open>counted_down\<close> lists the latches
  on which \<^verbatim>\<open>CountDown\<close> has been called.
\<close>

record MvccManager =
  cur_snap :: MvccSnapshot
  timestamps_in_flight :: "(val_type \<times> TxnState) list"
  new_op_timestamp_exc_lower_bound :: val_type
  earliest_in_flight :: val_type
  is_open :: bool
  waiters :: "WaitingState list"
  counted_down :: "nat list"

text \<open>Every \<^verbatim>\<open>CHECK\<close> failure and \<^verbatim>\<open>LOG(FATAL)\<close> of the source terminates the process.\<close>

datatype fatal =
    StartAtCommittedTimestamp
  | InitOpFailed
  | NotInFlight
  | WrongState TxnState
  | WaitersNotEmpty
  | EmplaceOrDieFailed

text \<open>\<^verbatim>\<open>MvccManager::MvccManager()\<close>.\<close>

definition MvccManager_new :: MvccManager where
  "MvccManager_new =
     \<lparr>cur_snap = MvccSnapshot_at kInitialTimestamp,
      timestamps_in_flight = [],
      new_op_timestamp_exc_lower_bound = kMin,
      earliest_in_flight = kMax,
      is_open = True,
      waiters = [],
      counted_down = []\<rparr>"

text \<open>
  \<^verbatim>\<open>MvccManager::InitOpUnlocked\<close>. The cached minimum is lowered before the insertion is
  attempted; \<^verbatim>\<open>InsertIfNotPresent\<close> leaves the table alone and returns false when the key exists.
\<close>

definition InitOpUnlocked :: "val_type \<Rightarrow> MvccManager \<Rightarrow> bool \<times> MvccManager" where
  "InitOpUnlocked t m =
     (if t \<le> new_op_timestamp_exc_lower_bound m then (False, m)
      else
        let m1 = (if t < earliest_in_flight m then m\<lparr>earliest_in_flight := t\<rparr> else m)
        in case map_of (timestamps_in_flight m1) t of
             Some st \<Rightarrow> (False, m1)
           | None \<Rightarrow>
               (True, m1\<lparr>timestamps_in_flight := timestamps_in_flight m1 @ [(t, RESERVED)]\<rparr>))"

definition StartOp :: "val_type \<Rightarrow> MvccManager \<Rightarrow> fatal + MvccManager" where
  "StartOp t m =
     (if IsCommitted (cur_snap m) t then Inl StartAtCommittedTimestamp
      else case InitOpUnlocked t m of
             (False, m1) \<Rightarrow> Inl InitOpFailed
           | (True, m1) \<Rightarrow> Inr m1)"

definition StartApplyingOp :: "val_type \<Rightarrow> MvccManager \<Rightarrow> fatal + MvccManager" where
  "StartApplyingOp t m =
     (case map_of (timestamps_in_flight m) t of
        None \<Rightarrow> Inl NotInFlight
      | Some cur_state \<Rightarrow>
          if cur_state \<noteq> RESERVED then Inl (WrongState cur_state)
          else Inr (m\<lparr>timestamps_in_flight :=
                        AList.update t APPLYING (timestamps_in_flight m)\<rparr>))"

definition RemoveInFlightAndGetStateUnlocked ::
    "val_type \<Rightarrow> MvccManager \<Rightarrow> fatal + (TxnState \<times> MvccManager)" where
  "RemoveInFlightAndGetStateUnlocked ts m =
     (case map_of (timestamps_in_flight m) ts of
        None \<Rightarrow> Inl NotInFlight
      | Some state \<Rightarrow>
          Inr (state, m\<lparr>timestamps_in_flight := AList.delete ts (timestamps_in_flight m)\<rparr>))"

text \<open>
  \<^verbatim>\<open>std::min_element\<close> over the table's entries, which are pairs compared lexicographically.
  The states are enumerators, \<^verbatim>\<open>RESERVED\<close> before \<^verbatim>\<open>APPLYING\<close>.
\<close>

fun TxnState_value :: "TxnState \<Rightarrow> nat" where
  "TxnState_value RESERVED = 0"
| "TxnState_value APPLYING = 1"

definition entry_less :: "val_type \<times> TxnState \<Rightarrow> val_type \<times> TxnState \<Rightarrow> bool" where
  "entry_less a b =
     (fst a < fst b \<or> (\<not> fst b < fst a \<and> TxnState_value (snd a) < TxnState_value (snd b)))"

fun min_element_from ::
    "val_type \<times> TxnState \<Rightarrow> (val_type \<times> TxnState) list \<Rightarrow> val_type \<times> TxnState" where
  "min_element_from smallest [] = smallest"
| "min_element_from smallest (x # xs) =
     min_element_from (if entry_less x smallest then x else smallest) xs"

definition AdvanceEarliestInFlightTimestamp :: "MvccManager \<Rightarrow> MvccManager" where
  "AdvanceEarliestInFlightTimestamp m =
     (case timestamps_in_flight m of
        [] \<Rightarrow> m\<lparr>earliest_in_flight := kMax\<rparr>
      | x # xs \<Rightarrow> m\<lparr>earliest_in_flight := fst (min_element_from x xs)\<rparr>)"

text \<open>\<^verbatim>\<open>AreAllOpsCommittedUnlocked\<close>, \<^verbatim>\<open>AnyApplyingAtOrBeforeUnlocked\<close>, \<^verbatim>\<open>IsDoneWaitingUnlocked\<close>.\<close>

definition AreAllOpsCommittedUnlocked :: "MvccManager \<Rightarrow> val_type \<Rightarrow> bool" where
  "AreAllOpsCommittedUnlocked m ts =
     (if ts < all_committed_before (cur_snap m) then True else ts < earliest_in_flight m)"

fun AnyApplyingAtOrBefore_scan :: "(val_type \<times> TxnState) list \<Rightarrow> val_type \<Rightarrow> bool" where
  "AnyApplyingAtOrBefore_scan [] ts = False"
| "AnyApplyingAtOrBefore_scan (entry # rest) ts =
     (if fst entry \<le> ts then True else AnyApplyingAtOrBefore_scan rest ts)"

definition AnyApplyingAtOrBeforeUnlocked :: "MvccManager \<Rightarrow> val_type \<Rightarrow> bool" where
  "AnyApplyingAtOrBeforeUnlocked m ts = AnyApplyingAtOrBefore_scan (timestamps_in_flight m) ts"

definition IsDoneWaitingUnlocked :: "MvccManager \<Rightarrow> WaitingState \<Rightarrow> bool" where
  "IsDoneWaitingUnlocked m waiter =
     (case wait_for waiter of
        ALL_COMMITTED \<Rightarrow> AreAllOpsCommittedUnlocked m (timestamp waiter)
      | NONE_APPLYING \<Rightarrow> \<not> AnyApplyingAtOrBeforeUnlocked m (timestamp waiter))"

text \<open>
  The waiter scan of \<^verbatim>\<open>AdjustCleanTimeUnlocked\<close>: a waiter whose condition holds is erased from
  the list and its latch counted down; the others stay, in order. The result is the remaining
  list and the latches counted down.
\<close>

fun wake_done_waiters :: "MvccManager \<Rightarrow> WaitingState list \<Rightarrow> WaitingState list \<times> nat list" where
  "wake_done_waiters m [] = ([], [])"
| "wake_done_waiters m (waiter # rest) =
     (let (keep, woken) = wake_done_waiters m rest
      in if IsDoneWaitingUnlocked m waiter then (keep, latch waiter # woken)
         else (waiter # keep, woken))"

definition AdjustCleanTimeUnlocked :: "MvccManager \<Rightarrow> MvccManager" where
  "AdjustCleanTimeUnlocked m =
     (let acb = (if earliest_in_flight m < new_op_timestamp_exc_lower_bound m
                 then earliest_in_flight m
                 else new_op_timestamp_exc_lower_bound m);
          snap1 = (cur_snap m)\<lparr>all_committed_before := acb\<rparr>;
          snap2 = snap1\<lparr>committed_timestamps :=
                          FilterTimestamps (committed_timestamps snap1)
                                           (all_committed_before snap1)\<rparr>;
          snap3 = (if committed_timestamps snap2 = []
                   then snap2\<lparr>none_committed_at_or_after := all_committed_before snap2\<rparr>
                   else snap2);
          m1 = m\<lparr>cur_snap := snap3\<rparr>
      in if waiters m1 \<noteq> []
         then (let (keep, woken) = wake_done_waiters m1 (waiters m1)
               in m1\<lparr>waiters := keep, counted_down := counted_down m1 @ woken\<rparr>)
         else m1)"

definition CommitOpUnlocked :: "val_type \<Rightarrow> MvccManager \<Rightarrow> fatal + (bool \<times> MvccManager)" where
  "CommitOpUnlocked t m =
     (let was_earliest_in_flight = (earliest_in_flight m = t)
      in case RemoveInFlightAndGetStateUnlocked t m of
           Inl e \<Rightarrow> Inl e
         | Inr (old_state, m1) \<Rightarrow>
             if old_state \<noteq> APPLYING then Inl (WrongState old_state)
             else
               let m2 = m1\<lparr>cur_snap := AddCommittedTimestamp (cur_snap m1) t\<rparr>
               in Inr (was_earliest_in_flight,
                       if was_earliest_in_flight then AdvanceEarliestInFlightTimestamp m2
                       else m2))"

definition CommitOp :: "val_type \<Rightarrow> MvccManager \<Rightarrow> fatal + MvccManager" where
  "CommitOp t m =
     (case CommitOpUnlocked t m of
        Inl e \<Rightarrow> Inl e
      | Inr (was_earliest, m1) \<Rightarrow>
          if was_earliest \<and> t \<le> new_op_timestamp_exc_lower_bound m1
          then Inr (AdjustCleanTimeUnlocked m1)
          else Inr m1)"

text \<open>
  \<^verbatim>\<open>MvccManager::AbortOp\<close>. On a closed manager the function returns right after the removal
  (the warning is not modelled).
\<close>

definition AbortOp :: "val_type \<Rightarrow> MvccManager \<Rightarrow> fatal + MvccManager" where
  "AbortOp t m =
     (case RemoveInFlightAndGetStateUnlocked t m of
        Inl e \<Rightarrow> Inl e
      | Inr (old_state, m1) \<Rightarrow>
          if \<not> is_open m1 then Inr m1
          else if old_state \<noteq> RESERVED then Inl (WrongState old_state)
          else if earliest_in_flight m1 = t then Inr (AdvanceEarliestInFlightTimestamp m1)
          else Inr m1)"

text \<open>\<^verbatim>\<open>MvccManager::AdjustNewOpLowerBound\<close> (the rate-limited log line is not modelled).\<close>

definition AdjustNewOpLowerBound :: "val_type \<Rightarrow> MvccManager \<Rightarrow> MvccManager" where
  "AdjustNewOpLowerBound t m =
     (if new_op_timestamp_exc_lower_bound m \<le> t
      then AdjustCleanTimeUnlocked (m\<lparr>new_op_timestamp_exc_lower_bound := t\<rparr>)
      else m)"

text \<open>\<^verbatim>\<open>MvccManager::Close\<close>: every waiter is erased and its latch counted down.\<close>

definition Close :: "MvccManager \<Rightarrow> MvccManager" where
  "Close m =
     m\<lparr>is_open := False, waiters := [],
       counted_down := counted_down m @ map latch (waiters m)\<rparr>"

definition TakeSnapshot :: "MvccManager \<Rightarrow> MvccSnapshot" where
  "TakeSnapshot m = cur_snap m"

definition GetCleanTimestamp :: "MvccManager \<Rightarrow> val_type" where
  "GetCleanTimestamp m = all_committed_before (cur_snap m)"

text \<open>\<^verbatim>\<open>MvccManager::~MvccManager\<close>: \<^verbatim>\<open>CHECK(waiters_.empty())\<close>.\<close>

definition MvccManager_destroy :: "MvccManager \<Rightarrow> fatal + unit" where
  "MvccManager_destroy m = (if waiters m = [] then Inr () else Inl WaitersNotEmpty)"

subsection \<open>Sequences of coordinator operations\<close>

datatype mvcc_op =
    OpStart val_type
  | OpStartApplying val_type
  | OpCommit val_type
  | OpAbort val_type
  | OpAdjustNewOpLowerBound val_type
  | OpClose

fun apply_op :: "mvcc_op \<Rightarrow> MvccManager \<Rightarrow> fatal + MvccManager" where
  "apply_op (OpStart t) m = StartOp t m"
| "apply_op (OpStartApplying t) m = StartApplyingOp t m"
| "apply_op (OpCommit t) m = CommitOp t m"
| "apply_op (OpAbort t) m = AbortOp t m"
| "apply_op (OpAdjustNewOpLowerBound t) m = Inr (AdjustNewOpLowerBound t m)"
| "apply_op OpClose m = Inr (Close m)"

text \<open>A run stops at the first fatal error, as the process does.\<close>

fun run_ops :: "mvcc_op list \<Rightarrow> MvccManager \<Rightarrow> fatal + MvccManager" where
  "run_ops [] m = Inr m"
| "run_ops (x # xs) m = (case apply_op x m of Inl e \<Rightarrow> Inl e | Inr m1 \<Rightarrow> run_ops xs m1)"

subsection \<open>Waiting\<close>

datatype Status = OK | InvalidArgument | IllegalState | NotFound | NotAuthorized
  | TimedOut | Aborted | Uninitialized | IOError

definition CheckOpen :: "MvccManager \<Rightarrow> Status" where
  "CheckOpen m = (if is_open m then OK else Aborted)"

text \<open>
  \<^verbatim>\<open>MvccManager::WaitUntil\<close> blocks on the latch, so it is split at the blocking point.
  \<^verbatim>\<open>WaitUntil_enter\<close> is the part up to the wait: it returns a status when the call returns
  at once, and \<^verbatim>\<open>None\<close> when the waiter has been pushed onto the list and the thread blocks.
  \<^verbatim>\<open>WaitUntil_deadline\<close> is the part after a wait that ran into the deadline: a waiter whose
  latch was counted down meanwhile has nothing to clean up, another one erases itself.
\<close>

definition WaitUntil_enter ::
    "WaitFor \<Rightarrow> val_type \<Rightarrow> nat \<Rightarrow> MvccManager \<Rightarrow> Status option \<times> MvccManager" where
  "WaitUntil_enter wait_for_kind ts l m =
     (if CheckOpen m \<noteq> OK then (Some (CheckOpen m), m)
      else
        let waiting_state = \<lparr>timestamp = ts, latch = l, wait_for = wait_for_kind\<rparr>
        in if IsDoneWaitingUnlocked m waiting_state then (Some OK, m)
           else (None, m\<lparr>waiters := waiters m @ [waiting_state]\<rparr>))"

definition WaitUntil_deadline ::
    "WaitFor \<Rightarrow> val_type \<Rightarrow> nat \<Rightarrow> MvccManager \<Rightarrow> Status \<times> MvccManager" where
  "WaitUntil_deadline wait_for_kind ts l m =
     (if l \<in> set (counted_down m) then (CheckOpen m, m)
      else (TimedOut,
            m\<lparr>waiters := remove1 \<lparr>timestamp = ts, latch = l, wait_for = wait_for_kind\<rparr> (waiters m)\<rparr>))"

section \<open>TxnStatusManager\<close>

text \<open>Transaction identifiers are \<^verbatim>\<open>int64_t\<close>: 64-bit words compared as signed numbers.\<close>

type_synonym int64 = "64 word"

datatype TxnStatePB = UNKNOWN | OPEN | COMMIT_IN_PROGRESS | COMMITTED | ABORTED

record TransactionEntry =
  entry_txn_id :: int64
  entry_user :: string
  entry_state :: TxnStatePB

text \<open>
  \<^verbatim>\<open>TxnStatusTablet\<close> (\<^verbatim>\<open>txn_status_tablet.h\<close>) is not among the sources. The spec describes it
  as a durable registry of records \<^verbatim>\<open>TxnStatusEntry{txn_id, user, state}\<close>.
\<close>

type_synonym TxnStatusTablet = "(int64 \<times> string \<times> TxnStatePB) list"

text \<open>
  Modelled from the spec: \<^verbatim>\<open>TxnStatusTablet::AddNewTransaction\<close>, which persists an \<^verbatim>\<open>OPEN\<close>
  entry for the transaction. A write either appends the record or fails with an error status
  and writes nothing; which of the two happens is decided outside the manager, so the outcome
  is a parameter.
\<close>

definition AddNewTransaction ::
    "Status \<Rightarrow> int64 \<Rightarrow> string \<Rightarrow> TxnStatusTablet \<Rightarrow> Status \<times> TxnStatusTablet" where
  "AddNewTransaction outcome txn_id user tablet =
     (if outcome = OK then (OK, tablet @ [(txn_id, user, OPEN)]) else (outcome, tablet))"

record TxnStatusManager =
  highest_txn_id :: int64
  txns_by_id :: "int64 \<rightharpoonup> TransactionEntry"
  status_tablet :: TxnStatusTablet

text \<open>\<^verbatim>\<open>TxnStatusManager::TxnStatusManager\<close>: \<^verbatim>\<open>highest_txn_id_(-1)\<close>.\<close>

definition TxnStatusManager_new :: TxnStatusManager where
  "TxnStatusManager_new =
     \<lparr>highest_txn_id = - 1, txns_by_id = Map.empty, status_tablet = []\<rparr>"

text \<open>
  \<^verbatim>\<open>TxnStatusManager::BeginTransaction\<close>. The identifier check and the assignment of
  \<^verbatim>\<open>highest_txn_id_\<close> happen under the lock, before the write to the status tablet;
  \<^verbatim>\<open>RETURN_NOT_OK\<close> returns the write's status when it is not OK; \<^verbatim>\<open>EmplaceOrDie\<close>
  terminates the process when the key is already in the map.
\<close>

definition BeginTransaction ::
    "int64 \<Rightarrow> string \<Rightarrow> Status \<Rightarrow> TxnStatusManager \<Rightarrow> fatal + (Status \<times> TxnStatusManager)" where
  "BeginTransaction txn_id user outcome mgr =
     (if word_sle txn_id (highest_txn_id mgr) then Inr (InvalidArgument, mgr)
      else
        let mgr1 = mgr\<lparr>highest_txn_id := txn_id\<rparr>;
            (s, tablet1) = AddNewTransaction outcome txn_id user (status_tablet mgr1);
            mgr2 = mgr1\<lparr>status_tablet := tablet1\<rparr>
        in if s \<noteq> OK then Inr (s, mgr2)
           else
             let txn = \<lparr>entry_txn_id = txn_id, entry_user = user, entry_state = OPEN\<rparr>
             in case txns_by_id mgr2 txn_id of
                  Some existing \<Rightarrow> Inl EmplaceOrDieFailed
                | None \<Rightarrow> Inr (OK, mgr2\<lparr>txns_by_id := (txns_by_id mgr2)(txn_id \<mapsto> txn)\<rparr>))"

section \<open>Invariants used in the proofs\<close>

text \<open>
  The facts about the watermarks that every run of coordinator operations keeps: no in-flight
  timestamp is below the clean timestamp or below the cached minimum, none is \<^verbatim>\<open>kMin\<close>, the clean
  timestamp is at most the cached minimum, and it is at most the lower bound for new ops, except
  in the state the constructor sets up, where it is \<^verbatim>\<open>kInitialTimestamp\<close> and the bound is \<^verbatim>\<open>kMin\<close>.
\<close>

definition watermarks_ok :: "MvccManager \<Rightarrow> bool" where
  "watermarks_ok m =
     ((\<forall>k \<in> fst ` set (timestamps_in_flight m).
          all_committed_before (cur_snap m) \<le> k \<and> earliest_in_flight m \<le> k \<and> k \<noteq> kMin)
      \<and> all_committed_before (cur_snap m) \<le> earliest_in_flight m
      \<and> (all_committed_before (cur_snap m) \<le> new_op_timestamp_exc_lower_bound m
         \<or> (all_committed_before (cur_snap m) = kInitialTimestamp
            \<and> new_op_timestamp_exc_lower_bound m = kMin)))"

text \<open>
  The order of the snapshot's watermarks and explicit set, and the exactness of the cached
  minimum of the in-flight table.
\<close>

definition snapshot_ok :: "MvccSnapshot \<Rightarrow> bool" where
  "snapshot_ok snap =
     (all_committed_before snap \<le> none_committed_at_or_after snap
      \<and> (\<forall>v \<in> set (committed_timestamps snap).
            all_committed_before snap \<le> v \<and> v < none_committed_at_or_after snap))"

definition earliest_exact :: "MvccManager \<Rightarrow> bool" where
  "earliest_exact m =
     (earliest_in_flight m =
        (if timestamps_in_flight m = [] then kMax
         else Min (fst ` set (timestamps_in_flight m))))"

section \<open>Basic facts\<close>

text \<open>The in-place loop of \<^verbatim>\<open>FilterTimestamps\<close> keeps exactly the values at or above the watermark, in order.\<close>

lemma FilterTimestamps_loop_filter:
  "j \<le> i \<Longrightarrow>
   FilterTimestamps_loop v i j w = take j v @ filter (\<lambda>ts. w \<le> ts) (drop i v)"
proof (induction v i j w rule: FilterTimestamps_loop.induct)
  case (1 v i j w)
  show ?case
  proof (cases "i < length v")
    case False
    then show ?thesis by (subst FilterTimestamps_loop.simps) simp
  next
    case inb: True
    then have split: "drop i v = v ! i # drop (Suc i) v"
      by (simp add: Cons_nth_drop_Suc)
    show ?thesis
    proof (cases "w \<le> v ! i")
      case keep: True
      from "1.prems" inb have jl: "j < length v" by simp
      have "FilterTimestamps_loop v i j w
              = FilterTimestamps_loop (v[j := v ! i]) (Suc i) (Suc j) w"
        using inb keep by (subst FilterTimestamps_loop.simps) simp
      also have "\<dots> = take (Suc j) (v[j := v ! i])
                         @ filter (\<lambda>ts. w \<le> ts) (drop (Suc i) (v[j := v ! i]))"
        using "1.IH"(1) [OF inb keep] "1.prems" by simp
      also have "take (Suc j) (v[j := v ! i]) = take j v @ [v ! i]"
        using jl by (simp add: take_Suc_conv_app_nth)
      also have "drop (Suc i) (v[j := v ! i]) = drop (Suc i) v"
        using "1.prems" by simp
      finally show ?thesis using keep split by simp
    next
      case skip: False
      have "FilterTimestamps_loop v i j w = FilterTimestamps_loop v (Suc i) j w"
        using inb skip by (subst FilterTimestamps_loop.simps) simp
      also have "\<dots> = take j v @ filter (\<lambda>ts. w \<le> ts) (drop (Suc i) v)"
        using "1.IH"(2) [OF inb skip] "1.prems" by simp
      finally show ?thesis using skip split by simp
    qed
  qed
qed

lemma FilterTimestamps_filter: "FilterTimestamps v w = filter (\<lambda>ts. w \<le> ts) v"
  by (simp add: FilterTimestamps_def FilterTimestamps_loop_filter)

lemma cur_snap_wake [simp]:
  "cur_snap (case wake_done_waiters m1 ws of (keep, woken) \<Rightarrow> m\<lparr>waiters := keep, counted_down := cd woken\<rparr>) = cur_snap m"
  by (simp split: prod.splits)

lemma AdjustCleanTimeUnlocked_cur_snap:
  "cur_snap (AdjustCleanTimeUnlocked m) =
     (let acb = (if earliest_in_flight m < new_op_timestamp_exc_lower_bound m
                 then earliest_in_flight m else new_op_timestamp_exc_lower_bound m);
          kept = filter (\<lambda>ts. acb \<le> ts) (committed_timestamps (cur_snap m))
      in \<lparr>all_committed_before = acb,
          none_committed_at_or_after =
            (if kept = [] then acb else none_committed_at_or_after (cur_snap m)),
          committed_timestamps = kept\<rparr>)"
  by (simp add: AdjustCleanTimeUnlocked_def Let_def FilterTimestamps_filter split: prod.splits)

lemma kMax_numeral: "kMax = 18446744073709551615"
  by (simp add: kMax_def)

lemmas mvcc_eval =
  MvccManager_new_def MvccSnapshot_at_def kMin_def kMax_numeral kInitialTimestamp_def
  StartOp_def InitOpUnlocked_def IsCommitted_def IsCommittedFallback_def StartApplyingOp_def
  RemoveInFlightAndGetStateUnlocked_def AdvanceEarliestInFlightTimestamp_def entry_less_def
  AdjustCleanTimeUnlocked_def CommitOpUnlocked_def CommitOp_def AbortOp_def
  AdjustNewOpLowerBound_def Close_def TakeSnapshot_def GetCleanTimestamp_def
  AddCommittedTimestamp_def FilterTimestamps_filter Let_def
  word_less_nat_alt word_le_nat_alt

text \<open>\<^verbatim>\<open>std::min_element\<close> returns an entry of the table whose key is the least.\<close>

lemma min_element_from_mem: "min_element_from x xs \<in> set (x # xs)"
  by (induction xs arbitrary: x) (auto split: if_splits)

lemma entry_less_fst: "entry_less a b \<Longrightarrow> fst a \<le> fst b"
  by (auto simp: entry_less_def)

lemma not_entry_less_fst: "\<not> entry_less a b \<Longrightarrow> fst b \<le> fst a"
  by (auto simp: entry_less_def)

lemma min_element_from_le_start: "fst (min_element_from x xs) \<le> fst x"
proof (induction xs arbitrary: x)
  case Nil
  show ?case by simp
next
  case (Cons y ys)
  show ?case
  proof (cases "entry_less y x")
    case True
    have "fst (min_element_from y ys) \<le> fst y" by (rule Cons.IH)
    also have "fst y \<le> fst x" using True by (rule entry_less_fst)
    finally show ?thesis using True by simp
  next
    case False
    then show ?thesis using Cons.IH [of x] by simp
  qed
qed

lemma min_element_from_le: "e \<in> set xs \<Longrightarrow> fst (min_element_from x xs) \<le> fst e"
proof (induction xs arbitrary: x)
  case Nil
  then show ?case by simp
next
  case (Cons y ys)
  let ?s = "if entry_less y x then y else x"
  show ?case
  proof (cases "e = y")
    case True
    have "fst (min_element_from ?s ys) \<le> fst ?s" by (rule min_element_from_le_start)
    also have "fst ?s \<le> fst y" by (auto dest: not_entry_less_fst)
    finally show ?thesis using True by simp
  next
    case False
    with Cons.prems have "e \<in> set ys" by simp
    then have "fst (min_element_from ?s ys) \<le> fst e" by (rule Cons.IH)
    then show ?thesis by simp
  qed
qed

lemma AdvanceEarliest_fields [simp]:
  "cur_snap (AdvanceEarliestInFlightTimestamp m) = cur_snap m"
  "timestamps_in_flight (AdvanceEarliestInFlightTimestamp m) = timestamps_in_flight m"
  "new_op_timestamp_exc_lower_bound (AdvanceEarliestInFlightTimestamp m) =
     new_op_timestamp_exc_lower_bound m"
  "is_open (AdvanceEarliestInFlightTimestamp m) = is_open m"
  "waiters (AdvanceEarliestInFlightTimestamp m) = waiters m"
  by (simp_all add: AdvanceEarliestInFlightTimestamp_def split: list.splits)

lemma AdvanceEarliest_lower:
  "k \<in> fst ` set (timestamps_in_flight m) \<Longrightarrow>
   earliest_in_flight (AdvanceEarliestInFlightTimestamp m) \<le> k"
  unfolding AdvanceEarliestInFlightTimestamp_def
  using min_element_from_le min_element_from_le_start
  by (fastforce split: list.splits)

lemma AdvanceEarliest_cases:
  "(timestamps_in_flight m = [] \<and> earliest_in_flight (AdvanceEarliestInFlightTimestamp m) = kMax)
   \<or> earliest_in_flight (AdvanceEarliestInFlightTimestamp m) \<in> fst ` set (timestamps_in_flight m)"
  unfolding AdvanceEarliestInFlightTimestamp_def
  using min_element_from_mem
  by (auto split: list.splits simp: image_iff) (metis fst_conv)

lemma le_kMax [simp]: "x \<le> kMax"
  by (simp add: kMax_def)

lemma wake_fields [simp]:
  "timestamps_in_flight (case p of (keep, woken) \<Rightarrow> m\<lparr>waiters := keep, counted_down := cd woken\<rparr>) = timestamps_in_flight m"
  "earliest_in_flight (case p of (keep, woken) \<Rightarrow> m\<lparr>waiters := keep, counted_down := cd woken\<rparr>) = earliest_in_flight m"
  "new_op_timestamp_exc_lower_bound (case p of (keep, woken) \<Rightarrow> m\<lparr>waiters := keep, counted_down := cd woken\<rparr>) = new_op_timestamp_exc_lower_bound m"
  "is_open (case p of (keep, woken) \<Rightarrow> m\<lparr>waiters := keep, counted_down := cd woken\<rparr>) = is_open m"
  by (simp_all split: prod.splits)

lemma AdjustCleanTimeUnlocked_fields [simp]:
  "timestamps_in_flight (AdjustCleanTimeUnlocked m) = timestamps_in_flight m"
  "earliest_in_flight (AdjustCleanTimeUnlocked m) = earliest_in_flight m"
  "new_op_timestamp_exc_lower_bound (AdjustCleanTimeUnlocked m) = new_op_timestamp_exc_lower_bound m"
  "is_open (AdjustCleanTimeUnlocked m) = is_open m"
  by (simp_all add: AdjustCleanTimeUnlocked_def Let_def)

lemma AdjustCleanTimeUnlocked_acb:
  "all_committed_before (cur_snap (AdjustCleanTimeUnlocked m)) =
     (if earliest_in_flight m < new_op_timestamp_exc_lower_bound m
      then earliest_in_flight m else new_op_timestamp_exc_lower_bound m)"
  by (simp add: AdjustCleanTimeUnlocked_cur_snap Let_def)

lemma AdjustCleanTimeUnlocked_committed:
  "committed_timestamps (cur_snap (AdjustCleanTimeUnlocked m)) =
     filter (\<lambda>ts. all_committed_before (cur_snap (AdjustCleanTimeUnlocked m)) \<le> ts)
            (committed_timestamps (cur_snap m))"
  by (simp add: AdjustCleanTimeUnlocked_cur_snap Let_def)

lemma watermarks_ok_AdjustCleanTimeUnlocked:
  assumes "\<forall>k \<in> fst ` set (timestamps_in_flight m). earliest_in_flight m \<le> k \<and> k \<noteq> kMin"
  shows "watermarks_ok (AdjustCleanTimeUnlocked m)"
  using assms unfolding watermarks_ok_def
  by (auto simp: AdjustCleanTimeUnlocked_acb)

lemma clean_time_mono_AdjustCleanTimeUnlocked:
  assumes "all_committed_before (cur_snap m) \<le> earliest_in_flight m"
    and "all_committed_before (cur_snap m) \<le> new_op_timestamp_exc_lower_bound m"
  shows "all_committed_before (cur_snap m) \<le> all_committed_before (cur_snap (AdjustCleanTimeUnlocked m))"
  using assms by (simp add: AdjustCleanTimeUnlocked_acb)

lemma watermarks_ok_new: "watermarks_ok MvccManager_new"
  by (simp add: watermarks_ok_def MvccManager_new_def MvccSnapshot_at_def)

lemma IsCommittedFallback_scan_set: "IsCommittedFallback_scan vs t \<longleftrightarrow> t \<in> set vs"
  by (induction vs) auto

lemma IsCommitted_iff:
  "IsCommitted snap t \<longleftrightarrow> t < all_committed_before snap \<or> t \<in> set (committed_timestamps snap)"
  by (simp add: IsCommitted_def IsCommittedFallback_def IsCommittedFallback_scan_set)

lemma AddCommittedTimestamp_acb [simp]:
  "all_committed_before (AddCommittedTimestamp snap t) = all_committed_before snap"
  by (simp add: AddCommittedTimestamp_def Let_def)

lemma AddCommittedTimestamp_set:
  "set (committed_timestamps (AddCommittedTimestamp snap t)) =
     (if IsCommitted snap t then set (committed_timestamps snap)
      else insert t (set (committed_timestamps snap)))"
  by (simp add: AddCommittedTimestamp_def Let_def)

lemma StartOp_Inr:
  "StartOp t m = Inr m' \<Longrightarrow>
     \<not> IsCommitted (cur_snap m) t \<and> new_op_timestamp_exc_lower_bound m < t
     \<and> map_of (timestamps_in_flight m) t = None
     \<and> m' = m\<lparr>earliest_in_flight := (if t < earliest_in_flight m then t else earliest_in_flight m),
              timestamps_in_flight := timestamps_in_flight m @ [(t, RESERVED)]\<rparr>"
  by (auto simp: StartOp_def InitOpUnlocked_def Let_def split: if_splits option.splits)

lemma watermarks_ok_StartOp:
  assumes "watermarks_ok m" and "StartOp t m = Inr m'"
  shows "watermarks_ok m'"
proof -
  from StartOp_Inr [OF assms(2)] have
    nc: "\<not> t < all_committed_before (cur_snap m)"
    and lb: "new_op_timestamp_exc_lower_bound m < t"
    and m': "m' = m\<lparr>earliest_in_flight := (if t < earliest_in_flight m then t else earliest_in_flight m),
              timestamps_in_flight := timestamps_in_flight m @ [(t, RESERVED)]\<rparr>"
    by (auto simp: IsCommitted_iff)
  from lb have "t \<noteq> kMin" by (auto simp: kMin_def)
  with assms(1) nc show ?thesis
    unfolding watermarks_ok_def m' by auto
qed

lemma StartApplyingOp_Inr:
  "StartApplyingOp t m = Inr m' \<Longrightarrow>
     map_of (timestamps_in_flight m) t = Some RESERVED
     \<and> m' = m\<lparr>timestamps_in_flight := AList.update t APPLYING (timestamps_in_flight m)\<rparr>"
  by (auto simp: StartApplyingOp_def split: option.splits if_splits)

lemma map_of_Some_key: "map_of xs k = Some v \<Longrightarrow> k \<in> fst ` set xs"
  by (force dest: map_of_SomeD simp: image_iff)

lemma keys_update_present:
  "map_of xs k = Some v \<Longrightarrow> fst ` set (AList.update k w xs) = fst ` set xs"
  by (auto simp: dom_update dest: map_of_Some_key)

lemma keys_delete: "fst ` set (AList.delete k xs) = fst ` set xs - {k}"
  by (induction xs) auto

lemma watermarks_ok_StartApplyingOp:
  assumes "watermarks_ok m" and "StartApplyingOp t m = Inr m'"
  shows "watermarks_ok m'"
  using assms(1) StartApplyingOp_Inr [OF assms(2)]
  unfolding watermarks_ok_def by (auto simp: keys_update_present)

lemma RemoveInFlight_Inr:
  "RemoveInFlightAndGetStateUnlocked t m = Inr (st, m1) \<Longrightarrow>
     map_of (timestamps_in_flight m) t = Some st
     \<and> m1 = m\<lparr>timestamps_in_flight := AList.delete t (timestamps_in_flight m)\<rparr>"
  by (auto simp: RemoveInFlightAndGetStateUnlocked_def split: option.splits)

lemma CommitOpUnlocked_Inr:
  "CommitOpUnlocked t m = Inr (w, m2) \<Longrightarrow>
     map_of (timestamps_in_flight m) t = Some APPLYING
     \<and> w = (earliest_in_flight m = t)
     \<and> m2 = (let m1 = m\<lparr>timestamps_in_flight := AList.delete t (timestamps_in_flight m),
                          cur_snap := AddCommittedTimestamp (cur_snap m) t\<rparr>
             in if w then AdvanceEarliestInFlightTimestamp m1 else m1)"
  by (auto simp: CommitOpUnlocked_def RemoveInFlightAndGetStateUnlocked_def Let_def
           split: option.splits if_splits)

lemma CommitOp_Inr:
  "CommitOp t m = Inr m' \<Longrightarrow>
     \<exists>m2. CommitOpUnlocked t m = Inr (earliest_in_flight m = t, m2)
          \<and> m' = (if earliest_in_flight m = t \<and> t \<le> new_op_timestamp_exc_lower_bound m2
                  then AdjustCleanTimeUnlocked m2 else m2)"
  by (auto simp: CommitOp_def split: sum.splits prod.splits if_splits dest: CommitOpUnlocked_Inr)

lemma CommitOpUnlocked_snap:
  "CommitOpUnlocked t m = Inr (w, m2) \<Longrightarrow>
     cur_snap m2 = AddCommittedTimestamp (cur_snap m) t
     \<and> new_op_timestamp_exc_lower_bound m2 = new_op_timestamp_exc_lower_bound m"
  by (auto dest!: CommitOpUnlocked_Inr simp: Let_def)

lemma AbortOp_Inr:
  "AbortOp t m = Inr m' \<Longrightarrow>
     \<exists>st. map_of (timestamps_in_flight m) t = Some st
        \<and> (is_open m \<longrightarrow> st = RESERVED)
        \<and> m' = (let m1 = m\<lparr>timestamps_in_flight := AList.delete t (timestamps_in_flight m)\<rparr>
                 in if is_open m \<and> earliest_in_flight m = t
                    then AdvanceEarliestInFlightTimestamp m1 else m1)"
  by (auto simp: AbortOp_def RemoveInFlightAndGetStateUnlocked_def Let_def
           split: option.splits if_splits)

lemma cur_snap_StartOp: "StartOp t m = Inr m' \<Longrightarrow> cur_snap m' = cur_snap m"
  by (auto dest!: StartOp_Inr)

lemma cur_snap_StartApplyingOp: "StartApplyingOp t m = Inr m' \<Longrightarrow> cur_snap m' = cur_snap m"
  by (auto dest!: StartApplyingOp_Inr)

lemma cur_snap_AbortOp: "AbortOp t m = Inr m' \<Longrightarrow> cur_snap m' = cur_snap m"
  by (auto dest!: AbortOp_Inr simp: Let_def)

lemma cur_snap_Close: "cur_snap (Close m) = cur_snap m"
  by (simp add: Close_def)

lemma run_ops_append:
  "run_ops (xs @ ys) m = (case run_ops xs m of Inl e \<Rightarrow> Inl e | Inr m1 \<Rightarrow> run_ops ys m1)"
  by (induction xs arbitrary: m) (auto split: sum.splits)

section \<open>The clean-time recomputation\<close>

text \<open>
  Claim C2. After \<^verbatim>\<open>AdjustCleanTimeUnlocked\<close> (which both \<^verbatim>\<open>AdjustNewOpLowerBound\<close>, after a
  successful advance, and \<^verbatim>\<open>CommitOp\<close>, after committing the earliest in-flight op with the lower
  bound at or above it, call on the current state): \<^verbatim>\<open>all_committed_before\<close> is
  \<^verbatim>\<open>earliest_in_flight\<close> if that is below \<^verbatim>\<open>new_op_exc_lb\<close> and \<^verbatim>\<open>new_op_exc_lb\<close> otherwise; the explicit
  set is the old one without the values strictly below the new \<^verbatim>\<open>all_committed_before\<close>, so none
  of its values is below it; and if the explicit set is then empty,
  \<^verbatim>\<open>none_committed_at_or_after\<close> equals \<^verbatim>\<open>all_committed_before\<close>.
\<close>

theorem AdjustCleanTimeUnlocked_recomputes:
  "all_committed_before (cur_snap (AdjustCleanTimeUnlocked m)) =
     (if earliest_in_flight m < new_op_timestamp_exc_lower_bound m
      then earliest_in_flight m else new_op_timestamp_exc_lower_bound m)
   \<and> committed_timestamps (cur_snap (AdjustCleanTimeUnlocked m)) =
       filter (\<lambda>v. \<not> v < all_committed_before (cur_snap (AdjustCleanTimeUnlocked m)))
              (committed_timestamps (cur_snap m))
   \<and> (\<forall>v \<in> set (committed_timestamps (cur_snap (AdjustCleanTimeUnlocked m))).
          \<not> v < all_committed_before (cur_snap (AdjustCleanTimeUnlocked m)))
   \<and> (committed_timestamps (cur_snap (AdjustCleanTimeUnlocked m)) = [] \<longrightarrow>
        none_committed_at_or_after (cur_snap (AdjustCleanTimeUnlocked m)) =
          all_committed_before (cur_snap (AdjustCleanTimeUnlocked m)))"
  by (simp add: AdjustCleanTimeUnlocked_cur_snap Let_def not_less)

theorem AdjustCleanTimeUnlocked_recomputes_witness:
  "all_committed_before (cur_snap (AdjustCleanTimeUnlocked
      (MvccManager_new\<lparr>cur_snap := \<lparr>all_committed_before = 1, none_committed_at_or_after = 4,
                                      committed_timestamps = [2, 3, 1]\<rparr>,
                        new_op_timestamp_exc_lower_bound := 3\<rparr>))) = 3
   \<and> committed_timestamps (cur_snap (AdjustCleanTimeUnlocked
      (MvccManager_new\<lparr>cur_snap := \<lparr>all_committed_before = 1, none_committed_at_or_after = 4,
                                      committed_timestamps = [2, 3, 1]\<rparr>,
                        new_op_timestamp_exc_lower_bound := 3\<rparr>))) = [3]
   \<and> committed_timestamps (cur_snap (AdjustCleanTimeUnlocked
      (MvccManager_new\<lparr>cur_snap := \<lparr>all_committed_before = 1, none_committed_at_or_after = 3,
                                      committed_timestamps = [1, 2]\<rparr>,
                        timestamps_in_flight := [(4, RESERVED)],
                        earliest_in_flight := 4,
                        new_op_timestamp_exc_lower_bound := 5\<rparr>))) = []
   \<and> none_committed_at_or_after (cur_snap (AdjustCleanTimeUnlocked
      (MvccManager_new\<lparr>cur_snap := \<lparr>all_committed_before = 1, none_committed_at_or_after = 3,
                                      committed_timestamps = [1, 2]\<rparr>,
                        timestamps_in_flight := [(4, RESERVED)],
                        earliest_in_flight := 4,
                        new_op_timestamp_exc_lower_bound := 5\<rparr>))) = 4"
  using AdjustCleanTimeUnlocked_recomputes
          [of "MvccManager_new\<lparr>cur_snap := \<lparr>all_committed_before = 1, none_committed_at_or_after = 4,
                                      committed_timestamps = [2, 3, 1]\<rparr>,
                        new_op_timestamp_exc_lower_bound := 3\<rparr>"]
        AdjustCleanTimeUnlocked_recomputes
          [of "MvccManager_new\<lparr>cur_snap := \<lparr>all_committed_before = 1, none_committed_at_or_after = 3,
                                      committed_timestamps = [1, 2]\<rparr>,
                        timestamps_in_flight := [(4, RESERVED)],
                        earliest_in_flight := 4,
                        new_op_timestamp_exc_lower_bound := 5\<rparr>"]
  by (simp add: MvccManager_new_def kMax_def)

section \<open>Watermark invariants of a run\<close>

lemma watermarks_ok_remove:
  assumes "watermarks_ok m"
  shows "watermarks_ok (m\<lparr>timestamps_in_flight := AList.delete t (timestamps_in_flight m)\<rparr>)"
  using assms unfolding watermarks_ok_def by (auto simp: keys_delete)

lemma watermarks_ok_add_committed:
  assumes "watermarks_ok m"
  shows "watermarks_ok (m\<lparr>cur_snap := AddCommittedTimestamp (cur_snap m) t\<rparr>)"
  using assms unfolding watermarks_ok_def by auto

lemma watermarks_ok_AdvanceEarliest:
  assumes "watermarks_ok m"
  shows "watermarks_ok (AdvanceEarliestInFlightTimestamp m)"
proof -
  have low: "\<And>k. k \<in> fst ` set (timestamps_in_flight m) \<Longrightarrow>
               earliest_in_flight (AdvanceEarliestInFlightTimestamp m) \<le> k"
    by (rule AdvanceEarliest_lower)
  have "all_committed_before (cur_snap m) \<le> earliest_in_flight (AdvanceEarliestInFlightTimestamp m)"
    using AdvanceEarliest_cases [of m] assms unfolding watermarks_ok_def by auto
  with assms low show ?thesis unfolding watermarks_ok_def by simp
qed

lemma watermarks_ok_CommitOpUnlocked:
  assumes "watermarks_ok m" and "CommitOpUnlocked t m = Inr (w, m2)"
  shows "watermarks_ok m2"
proof -
  let ?m1 = "m\<lparr>timestamps_in_flight := AList.delete t (timestamps_in_flight m),
               cur_snap := AddCommittedTimestamp (cur_snap m) t\<rparr>"
  have "watermarks_ok ?m1"
    using watermarks_ok_add_committed [OF watermarks_ok_remove [OF assms(1)], of t t] by simp
  then show ?thesis
    using CommitOpUnlocked_Inr [OF assms(2)] watermarks_ok_AdvanceEarliest [of ?m1]
    by (auto simp: Let_def)
qed

lemma watermarks_ok_keys:
  "watermarks_ok m \<Longrightarrow>
   \<forall>k \<in> fst ` set (timestamps_in_flight m). earliest_in_flight m \<le> k \<and> k \<noteq> kMin"
  unfolding watermarks_ok_def by blast

lemma watermarks_ok_CommitOp:
  assumes "watermarks_ok m" and "CommitOp t m = Inr m'"
  shows "watermarks_ok m'"
proof -
  from CommitOp_Inr [OF assms(2)] obtain m2 where
    u: "CommitOpUnlocked t m = Inr (earliest_in_flight m = t, m2)"
    and m': "m' = (if earliest_in_flight m = t \<and> t \<le> new_op_timestamp_exc_lower_bound m2
                   then AdjustCleanTimeUnlocked m2 else m2)"
    by blast
  have ok2: "watermarks_ok m2" by (rule watermarks_ok_CommitOpUnlocked [OF assms(1) u])
  show ?thesis
    unfolding m'
    using ok2 watermarks_ok_AdjustCleanTimeUnlocked [OF watermarks_ok_keys [OF ok2]]
    by simp
qed

lemma watermarks_ok_AbortOp:
  assumes "watermarks_ok m" and "AbortOp t m = Inr m'"
  shows "watermarks_ok m'"
  using AbortOp_Inr [OF assms(2)] watermarks_ok_remove [OF assms(1), of t]
        watermarks_ok_AdvanceEarliest
          [of "m\<lparr>timestamps_in_flight := AList.delete t (timestamps_in_flight m)\<rparr>"]
  by (auto simp: Let_def)

lemma watermarks_ok_AdjustNewOpLowerBound:
  assumes "watermarks_ok m"
  shows "watermarks_ok (AdjustNewOpLowerBound t m)"
proof (cases "new_op_timestamp_exc_lower_bound m \<le> t")
  case True
  have "watermarks_ok (AdjustCleanTimeUnlocked (m\<lparr>new_op_timestamp_exc_lower_bound := t\<rparr>))"
    using watermarks_ok_keys [OF assms]
    by (intro watermarks_ok_AdjustCleanTimeUnlocked) simp
  with True show ?thesis by (simp add: AdjustNewOpLowerBound_def)
next
  case False
  with assms show ?thesis by (simp add: AdjustNewOpLowerBound_def)
qed

lemma watermarks_ok_Close:
  "watermarks_ok m \<Longrightarrow> watermarks_ok (Close m)"
  by (simp add: watermarks_ok_def Close_def)

lemma watermarks_ok_apply_op:
  assumes "watermarks_ok m" and "apply_op x m = Inr m'"
  shows "watermarks_ok m'"
  using assms
  by (cases x)
     (auto intro: watermarks_ok_StartOp watermarks_ok_StartApplyingOp watermarks_ok_CommitOp
                  watermarks_ok_AbortOp watermarks_ok_AdjustNewOpLowerBound watermarks_ok_Close)

lemma watermarks_ok_run_ops:
  "watermarks_ok m \<Longrightarrow> run_ops xs m = Inr m' \<Longrightarrow> watermarks_ok m'"
proof (induction xs arbitrary: m)
  case Nil
  then show ?case by simp
next
  case (Cons x xs)
  from Cons.prems(2) obtain m1 where
    step: "apply_op x m = Inr m1" and rest: "run_ops xs m1 = Inr m'"
    by (auto split: sum.splits)
  from Cons.prems(1) step have "watermarks_ok m1" by (rule watermarks_ok_apply_op)
  then show ?case using rest by (rule Cons.IH)
qed

lemma watermarks_ok_reachable:
  "run_ops xs MvccManager_new = Inr m \<Longrightarrow> watermarks_ok m"
  using watermarks_ok_new by (rule watermarks_ok_run_ops)

section \<open>The in-flight table keeps its keys distinct\<close>

text \<open>
  So the association list is a map: the first entry found for a key is the only one, and
  \<^verbatim>\<open>erase\<close> of that entry is the removal of the key.
\<close>

lemma distinct_keys_apply_op:
  assumes d: "distinct (map fst (timestamps_in_flight m))" and step: "apply_op x m = Inr m'"
  shows "distinct (map fst (timestamps_in_flight m'))"
proof (cases x)
  case (OpStart t)
  with step have "StartOp t m = Inr m'" by simp
  from StartOp_Inr [OF this] d show ?thesis
    by (auto simp: map_of_eq_None_iff)
next
  case (OpStartApplying t)
  with step have "StartApplyingOp t m = Inr m'" by simp
  from StartApplyingOp_Inr [OF this] d show ?thesis
    by (auto simp: distinct_update)
next
  case (OpCommit t)
  with step have "CommitOp t m = Inr m'" by simp
  from CommitOp_Inr [OF this] obtain m2 where
    u: "CommitOpUnlocked t m = Inr (earliest_in_flight m = t, m2)"
    and m': "m' = (if earliest_in_flight m = t \<and> t \<le> new_op_timestamp_exc_lower_bound m2
                   then AdjustCleanTimeUnlocked m2 else m2)"
    by blast
  from CommitOpUnlocked_Inr [OF u] d have "distinct (map fst (timestamps_in_flight m2))"
    by (auto simp: Let_def distinct_delete)
  then show ?thesis unfolding m' by simp
next
  case (OpAbort t)
  with step have "AbortOp t m = Inr m'" by simp
  from AbortOp_Inr [OF this] d show ?thesis
    by (auto simp: Let_def distinct_delete)
next
  case (OpAdjustNewOpLowerBound t)
  with step have "m' = AdjustNewOpLowerBound t m" by auto
  with d show ?thesis by (simp add: AdjustNewOpLowerBound_def)
next
  case OpClose
  with step d show ?thesis by (auto simp: Close_def)
qed

lemma distinct_keys_run_ops:
  "distinct (map fst (timestamps_in_flight m)) \<Longrightarrow> run_ops xs m = Inr m'
     \<Longrightarrow> distinct (map fst (timestamps_in_flight m'))"
proof (induction xs arbitrary: m)
  case Nil
  then show ?case by simp
next
  case (Cons x xs)
  from Cons.prems(2) obtain m1 where
    step: "apply_op x m = Inr m1" and rest: "run_ops xs m1 = Inr m'"
    by (auto split: sum.splits)
  from Cons.prems(1) step have "distinct (map fst (timestamps_in_flight m1))"
    by (rule distinct_keys_apply_op)
  then show ?case using rest by (rule Cons.IH)
qed

lemma distinct_keys_reachable:
  "run_ops xs MvccManager_new = Inr m \<Longrightarrow> distinct (map fst (timestamps_in_flight m))"
  by (rule distinct_keys_run_ops [of MvccManager_new]) (simp_all add: MvccManager_new_def)

section \<open>Monotonicity of the clean timestamp\<close>

lemma word_not_kMin_ge_one: "(t :: val_type) \<noteq> kMin \<Longrightarrow> kInitialTimestamp \<le> t"
  by (simp add: kMin_def kInitialTimestamp_def word_le_sub1)

lemma clean_time_mono_CommitOp:
  assumes ok: "watermarks_ok m" and c: "CommitOp t m = Inr m'"
  shows "all_committed_before (cur_snap m) \<le> all_committed_before (cur_snap m')"
proof -
  from CommitOp_Inr [OF c] obtain m2 where
    u: "CommitOpUnlocked t m = Inr (earliest_in_flight m = t, m2)"
    and m': "m' = (if earliest_in_flight m = t \<and> t \<le> new_op_timestamp_exc_lower_bound m2
                   then AdjustCleanTimeUnlocked m2 else m2)"
    by blast
  have snap2: "all_committed_before (cur_snap m2) = all_committed_before (cur_snap m)"
    and lb2: "new_op_timestamp_exc_lower_bound m2 = new_op_timestamp_exc_lower_bound m"
    using CommitOpUnlocked_snap [OF u] by simp_all
  have ok2: "watermarks_ok m2" by (rule watermarks_ok_CommitOpUnlocked [OF ok u])
  show ?thesis
  proof (cases "earliest_in_flight m = t \<and> t \<le> new_op_timestamp_exc_lower_bound m2")
    case False
    with m' snap2 show ?thesis by simp
  next
    case True
    from CommitOpUnlocked_Inr [OF u] have "t \<in> fst ` set (timestamps_in_flight m)"
      by (auto dest: map_of_Some_key)
    with ok have "all_committed_before (cur_snap m) \<le> t"
      unfolding watermarks_ok_def by auto
    also from True have "t \<le> new_op_timestamp_exc_lower_bound m2" by simp
    finally have "all_committed_before (cur_snap m2) \<le> new_op_timestamp_exc_lower_bound m2"
      using snap2 by simp
    moreover from ok2 have "all_committed_before (cur_snap m2) \<le> earliest_in_flight m2"
      unfolding watermarks_ok_def by simp
    ultimately have "all_committed_before (cur_snap m2)
                       \<le> all_committed_before (cur_snap (AdjustCleanTimeUnlocked m2))"
      by (intro clean_time_mono_AdjustCleanTimeUnlocked)
    with True m' snap2 show ?thesis by simp
  qed
qed

lemma clean_time_mono_AdjustNewOpLowerBound:
  assumes ok: "watermarks_ok m"
    and ex: "\<not> (t = kMin \<and> new_op_timestamp_exc_lower_bound m = kMin
                \<and> all_committed_before (cur_snap m) = kInitialTimestamp)"
  shows "all_committed_before (cur_snap m)
           \<le> all_committed_before (cur_snap (AdjustNewOpLowerBound t m))"
proof (cases "new_op_timestamp_exc_lower_bound m \<le> t")
  case False
  then show ?thesis by (simp add: AdjustNewOpLowerBound_def)
next
  case True
  let ?m1 = "m\<lparr>new_op_timestamp_exc_lower_bound := t\<rparr>"
  from ok have e: "all_committed_before (cur_snap ?m1) \<le> earliest_in_flight ?m1"
    unfolding watermarks_ok_def by simp
  from ok have "all_committed_before (cur_snap m) \<le> new_op_timestamp_exc_lower_bound m
     \<or> (all_committed_before (cur_snap m) = kInitialTimestamp
         \<and> new_op_timestamp_exc_lower_bound m = kMin)"
    unfolding watermarks_ok_def by simp
  then have "all_committed_before (cur_snap m) \<le> t"
  proof
    assume "all_committed_before (cur_snap m) \<le> new_op_timestamp_exc_lower_bound m"
    with True show ?thesis by simp
  next
    assume init: "all_committed_before (cur_snap m) = kInitialTimestamp
         \<and> new_op_timestamp_exc_lower_bound m = kMin"
    with ex have "t \<noteq> kMin" by simp
    then show ?thesis using init by (simp add: word_not_kMin_ge_one)
  qed
  then have "all_committed_before (cur_snap ?m1) \<le> new_op_timestamp_exc_lower_bound ?m1"
    by simp
  with e have "all_committed_before (cur_snap ?m1)
                 \<le> all_committed_before (cur_snap (AdjustCleanTimeUnlocked ?m1))"
    by (rule clean_time_mono_AdjustCleanTimeUnlocked)
  with True show ?thesis by (simp add: AdjustNewOpLowerBound_def)
qed

lemma clean_time_mono_apply_op:
  assumes ok: "watermarks_ok m" and step: "apply_op x m = Inr m'"
    and ex: "\<not> (x = OpAdjustNewOpLowerBound kMin \<and> new_op_timestamp_exc_lower_bound m = kMin
                \<and> all_committed_before (cur_snap m) = kInitialTimestamp)"
  shows "all_committed_before (cur_snap m) \<le> all_committed_before (cur_snap m')"
proof (cases x)
  case (OpStart t)
  with step show ?thesis by (simp add: cur_snap_StartOp)
next
  case (OpStartApplying t)
  with step show ?thesis by (simp add: cur_snap_StartApplyingOp)
next
  case (OpCommit t)
  with step ok show ?thesis by (simp add: clean_time_mono_CommitOp)
next
  case (OpAbort t)
  with step show ?thesis by (simp add: cur_snap_AbortOp)
next
  case (OpAdjustNewOpLowerBound t)
  with step ex have "m' = AdjustNewOpLowerBound t m"
    and "\<not> (t = kMin \<and> new_op_timestamp_exc_lower_bound m = kMin
                \<and> all_committed_before (cur_snap m) = kInitialTimestamp)"
    by auto
  with ok show ?thesis by (simp add: clean_time_mono_AdjustNewOpLowerBound)
next
  case OpClose
  with step show ?thesis by (auto simp: cur_snap_Close)
qed

text \<open>
  Claim C4 as stated does not hold: on a fresh manager the lower bound is \<^verbatim>\<open>kMin\<close> while the clean
  timestamp is \<^verbatim>\<open>kInitialTimestamp\<close>, and \<^verbatim>\<open>AdjustNewOpLowerBound(kMin)\<close> passes the guard
  \<^verbatim>\<open>new_op_timestamp_exc_lower_bound_ <= timestamp\<close> and sets the clean timestamp to \<^verbatim>\<open>kMin\<close>.
\<close>

theorem clean_timestamp_decreases_counterexample:
  "apply_op (OpAdjustNewOpLowerBound kMin) MvccManager_new
     = Inr (AdjustNewOpLowerBound kMin MvccManager_new)
   \<and> GetCleanTimestamp MvccManager_new = kInitialTimestamp
   \<and> GetCleanTimestamp (AdjustNewOpLowerBound kMin MvccManager_new) = kMin
   \<and> kMin < kInitialTimestamp"
  by (simp add: GetCleanTimestamp_def AdjustNewOpLowerBound_def AdjustCleanTimeUnlocked_acb
                MvccManager_new_def MvccSnapshot_at_def kMin_def kMax_def kInitialTimestamp_def)

text \<open>
  Claim C4, amended. After any run of operations from a fresh manager, an operation that
  returns does not lower \<^verbatim>\<open>all_committed_before\<close> (the value of \<^verbatim>\<open>GetCleanTimestamp\<close>), unless it
  is \<^verbatim>\<open>AdjustNewOpLowerBound(kMin)\<close> called while the lower bound is still \<^verbatim>\<open>kMin\<close> and the clean
  timestamp still \<^verbatim>\<open>kInitialTimestamp\<close>.
\<close>

theorem clean_timestamp_monotone:
  assumes "run_ops ops MvccManager_new = Inr m"
    and "apply_op x m = Inr m'"
    and "\<not> (x = OpAdjustNewOpLowerBound kMin
            \<and> new_op_timestamp_exc_lower_bound m = kMin
            \<and> GetCleanTimestamp m = kInitialTimestamp)"
  shows "GetCleanTimestamp m \<le> GetCleanTimestamp m'"
  using clean_time_mono_apply_op [OF watermarks_ok_reachable [OF assms(1)] assms(2)] assms(3)
  by (simp add: GetCleanTimestamp_def)

theorem clean_timestamp_monotone_witness:
  "run_ops [OpStart 1, OpStart 2, OpStartApplying 1, OpCommit 1] MvccManager_new
     = Inr \<lparr>cur_snap = \<lparr>all_committed_before = 1, none_committed_at_or_after = 2,
                          committed_timestamps = [1]\<rparr>,
            timestamps_in_flight = [(2, RESERVED)], new_op_timestamp_exc_lower_bound = 0,
            earliest_in_flight = 2, is_open = True, waiters = [], counted_down = []\<rparr>
   \<and> apply_op (OpAdjustNewOpLowerBound 5)
         \<lparr>cur_snap = \<lparr>all_committed_before = 1, none_committed_at_or_after = 2,
                          committed_timestamps = [1]\<rparr>,
            timestamps_in_flight = [(2, RESERVED)], new_op_timestamp_exc_lower_bound = 0,
            earliest_in_flight = 2, is_open = True, waiters = [], counted_down = []\<rparr>
     = Inr \<lparr>cur_snap = \<lparr>all_committed_before = 2, none_committed_at_or_after = 2,
                          committed_timestamps = []\<rparr>,
            timestamps_in_flight = [(2, RESERVED)], new_op_timestamp_exc_lower_bound = 5,
            earliest_in_flight = 2, is_open = True, waiters = [], counted_down = []\<rparr>
   \<and> GetCleanTimestamp
         \<lparr>cur_snap = \<lparr>all_committed_before = 1, none_committed_at_or_after = 2,
                          committed_timestamps = [1]\<rparr>,
            timestamps_in_flight = [(2, RESERVED)], new_op_timestamp_exc_lower_bound = 0,
            earliest_in_flight = 2, is_open = True, waiters = [], counted_down = []\<rparr>
       \<le> GetCleanTimestamp
         \<lparr>cur_snap = \<lparr>all_committed_before = 2, none_committed_at_or_after = 2,
                          committed_timestamps = []\<rparr>,
            timestamps_in_flight = [(2, RESERVED)], new_op_timestamp_exc_lower_bound = 5,
            earliest_in_flight = 2, is_open = True, waiters = [], counted_down = []\<rparr>"
proof -
  have run: "run_ops [OpStart 1, OpStart 2, OpStartApplying 1, OpCommit 1] MvccManager_new
     = Inr \<lparr>cur_snap = \<lparr>all_committed_before = 1, none_committed_at_or_after = 2,
                          committed_timestamps = [1]\<rparr>,
            timestamps_in_flight = [(2, RESERVED)], new_op_timestamp_exc_lower_bound = 0,
            earliest_in_flight = 2, is_open = True, waiters = [], counted_down = []\<rparr>"
    by (simp add: mvcc_eval)
  have step: "apply_op (OpAdjustNewOpLowerBound 5)
         \<lparr>cur_snap = \<lparr>all_committed_before = 1, none_committed_at_or_after = 2,
                          committed_timestamps = [1]\<rparr>,
            timestamps_in_flight = [(2, RESERVED)], new_op_timestamp_exc_lower_bound = 0,
            earliest_in_flight = 2, is_open = True, waiters = [], counted_down = []\<rparr>
     = Inr \<lparr>cur_snap = \<lparr>all_committed_before = 2, none_committed_at_or_after = 2,
                          committed_timestamps = []\<rparr>,
            timestamps_in_flight = [(2, RESERVED)], new_op_timestamp_exc_lower_bound = 5,
            earliest_in_flight = 2, is_open = True, waiters = [], counted_down = []\<rparr>"
    by (simp add: mvcc_eval)
  have allowed: "\<not> (OpAdjustNewOpLowerBound 5 = OpAdjustNewOpLowerBound kMin
            \<and> new_op_timestamp_exc_lower_bound
                 \<lparr>cur_snap = \<lparr>all_committed_before = 1, none_committed_at_or_after = 2,
                          committed_timestamps = [1]\<rparr>,
            timestamps_in_flight = [(2, RESERVED)], new_op_timestamp_exc_lower_bound = 0,
            earliest_in_flight = 2, is_open = True, waiters = [], counted_down = []\<rparr> = kMin
            \<and> GetCleanTimestamp
                 \<lparr>cur_snap = \<lparr>all_committed_before = 1, none_committed_at_or_after = 2,
                          committed_timestamps = [1]\<rparr>,
            timestamps_in_flight = [(2, RESERVED)], new_op_timestamp_exc_lower_bound = 0,
            earliest_in_flight = 2, is_open = True, waiters = [], counted_down = []\<rparr> = kInitialTimestamp)"
    by (simp add: kMin_def)
  from clean_timestamp_monotone [OF run step allowed] run step show ?thesis by simp
qed

section \<open>Committed operations stay committed\<close>

lemma IsCommitted_AdjustCleanTimeUnlocked:
  assumes "IsCommitted (cur_snap m) t"
    and "t < all_committed_before (cur_snap m) \<Longrightarrow>
           t < all_committed_before (cur_snap (AdjustCleanTimeUnlocked m))"
  shows "IsCommitted (cur_snap (AdjustCleanTimeUnlocked m)) t"
proof (cases "t < all_committed_before (cur_snap (AdjustCleanTimeUnlocked m))")
  case True
  then show ?thesis by (simp add: IsCommitted_iff)
next
  case False
  with assms have "t \<in> set (committed_timestamps (cur_snap m))"
    by (auto simp: IsCommitted_iff)
  with False have "t \<in> set (committed_timestamps (cur_snap (AdjustCleanTimeUnlocked m)))"
    by (subst AdjustCleanTimeUnlocked_committed) (simp add: not_less)
  then show ?thesis by (simp add: IsCommitted_iff)
qed

lemma IsCommitted_AddCommittedTimestamp_same: "IsCommitted (AddCommittedTimestamp snap t) t"
  by (auto simp: IsCommitted_iff AddCommittedTimestamp_set)

lemma IsCommitted_AddCommittedTimestamp_other:
  "IsCommitted snap t \<Longrightarrow> IsCommitted (AddCommittedTimestamp snap u) t"
  by (auto simp: IsCommitted_iff AddCommittedTimestamp_set)

lemma CommitOp_commits:
  assumes ok: "watermarks_ok m" and c: "CommitOp t m = Inr m'"
  shows "IsCommitted (cur_snap m') t \<and> t \<noteq> kMin"
proof -
  from CommitOp_Inr [OF c] obtain m2 where
    u: "CommitOpUnlocked t m = Inr (earliest_in_flight m = t, m2)"
    and m': "m' = (if earliest_in_flight m = t \<and> t \<le> new_op_timestamp_exc_lower_bound m2
                   then AdjustCleanTimeUnlocked m2 else m2)"
    by blast
  from CommitOpUnlocked_Inr [OF u] have "t \<in> fst ` set (timestamps_in_flight m)"
    by (auto dest: map_of_Some_key)
  with ok have below: "all_committed_before (cur_snap m) \<le> t" and nz: "t \<noteq> kMin"
    unfolding watermarks_ok_def by auto
  have c2: "IsCommitted (cur_snap m2) t"
    using CommitOpUnlocked_snap [OF u] by (simp add: IsCommitted_AddCommittedTimestamp_same)
  have "\<not> t < all_committed_before (cur_snap m2)"
    using CommitOpUnlocked_snap [OF u] below by simp
  with c2 have "IsCommitted (cur_snap (AdjustCleanTimeUnlocked m2)) t"
    by (intro IsCommitted_AdjustCleanTimeUnlocked) simp_all
  with c2 m' nz show ?thesis by simp
qed

lemma IsCommitted_stays_CommitOp:
  assumes ok: "watermarks_ok m" and c: "CommitOp u m = Inr m'"
    and ic: "IsCommitted (cur_snap m) t"
  shows "IsCommitted (cur_snap m') t"
proof -
  from CommitOp_Inr [OF c] obtain m2 where
    u: "CommitOpUnlocked u m = Inr (earliest_in_flight m = u, m2)"
    and m': "m' = (if earliest_in_flight m = u \<and> u \<le> new_op_timestamp_exc_lower_bound m2
                   then AdjustCleanTimeUnlocked m2 else m2)"
    by blast
  have snap2: "cur_snap m2 = AddCommittedTimestamp (cur_snap m) u"
    using CommitOpUnlocked_snap [OF u] by simp
  have c2: "IsCommitted (cur_snap m2) t"
    using ic by (simp add: snap2 IsCommitted_AddCommittedTimestamp_other)
  show ?thesis
  proof (cases "earliest_in_flight m = u \<and> u \<le> new_op_timestamp_exc_lower_bound m2")
    case False
    with m' c2 show ?thesis by simp
  next
    case True
    with m' have eq: "m' = AdjustCleanTimeUnlocked m2" by simp
    have mono: "all_committed_before (cur_snap m) \<le> all_committed_before (cur_snap m')"
      by (rule clean_time_mono_CommitOp [OF ok c])
    have "IsCommitted (cur_snap (AdjustCleanTimeUnlocked m2)) t"
    proof (rule IsCommitted_AdjustCleanTimeUnlocked [OF c2])
      assume "t < all_committed_before (cur_snap m2)"
      then have "t < all_committed_before (cur_snap m)" by (simp add: snap2)
      with mono show "t < all_committed_before (cur_snap (AdjustCleanTimeUnlocked m2))"
        unfolding eq by simp
    qed
    with eq show ?thesis by simp
  qed
qed

lemma IsCommitted_stays_AdjustNewOpLowerBound:
  assumes ok: "watermarks_ok m" and ic: "IsCommitted (cur_snap m) t" and nz: "t \<noteq> kMin"
  shows "IsCommitted (cur_snap (AdjustNewOpLowerBound u m)) t"
proof (cases "new_op_timestamp_exc_lower_bound m \<le> u")
  case False
  with ic show ?thesis by (simp add: AdjustNewOpLowerBound_def)
next
  case True
  let ?m1 = "m\<lparr>new_op_timestamp_exc_lower_bound := u\<rparr>"
  have adj: "AdjustNewOpLowerBound u m = AdjustCleanTimeUnlocked ?m1"
    using True by (simp add: AdjustNewOpLowerBound_def)
  have "IsCommitted (cur_snap (AdjustCleanTimeUnlocked ?m1)) t"
  proof (rule IsCommitted_AdjustCleanTimeUnlocked)
    show "IsCommitted (cur_snap ?m1) t" using ic by simp
  next
    assume "t < all_committed_before (cur_snap ?m1)"
    then have lt: "t < all_committed_before (cur_snap m)" by simp
    show "t < all_committed_before (cur_snap (AdjustCleanTimeUnlocked ?m1))"
    proof (cases "u = kMin \<and> new_op_timestamp_exc_lower_bound m = kMin
                  \<and> all_committed_before (cur_snap m) = kInitialTimestamp")
      case True
      with lt nz show ?thesis
        using word_not_kMin_ge_one [of t] by simp
    next
      case False
      then have "all_committed_before (cur_snap m)
                   \<le> all_committed_before (cur_snap (AdjustNewOpLowerBound u m))"
        by (intro clean_time_mono_AdjustNewOpLowerBound [OF ok]) simp
      with lt show ?thesis unfolding adj by simp
    qed
  qed
  then show ?thesis by (simp add: adj)
qed

lemma IsCommitted_stays_apply_op:
  assumes ok: "watermarks_ok m" and step: "apply_op x m = Inr m'"
    and ic: "IsCommitted (cur_snap m) t" and nz: "t \<noteq> kMin"
  shows "IsCommitted (cur_snap m') t"
proof (cases x)
  case (OpStart u)
  with step ic show ?thesis by (simp add: cur_snap_StartOp)
next
  case (OpStartApplying u)
  with step ic show ?thesis by (simp add: cur_snap_StartApplyingOp)
next
  case (OpCommit u)
  with step have "CommitOp u m = Inr m'" by simp
  from ok this ic show ?thesis by (rule IsCommitted_stays_CommitOp)
next
  case (OpAbort u)
  with step ic show ?thesis by (simp add: cur_snap_AbortOp)
next
  case (OpAdjustNewOpLowerBound u)
  with step have "m' = AdjustNewOpLowerBound u m" by auto
  with ok ic nz show ?thesis by (simp add: IsCommitted_stays_AdjustNewOpLowerBound)
next
  case OpClose
  with step ic show ?thesis by (auto simp: cur_snap_Close)
qed

lemma IsCommitted_stays_run_ops:
  "watermarks_ok m \<Longrightarrow> run_ops xs m = Inr m' \<Longrightarrow> IsCommitted (cur_snap m) t \<Longrightarrow> t \<noteq> kMin
     \<Longrightarrow> IsCommitted (cur_snap m') t"
proof (induction xs arbitrary: m)
  case Nil
  then show ?case by simp
next
  case (Cons x xs)
  from Cons.prems(2) obtain m1 where
    step: "apply_op x m = Inr m1" and rest: "run_ops xs m1 = Inr m'"
    by (auto split: sum.splits)
  have "watermarks_ok m1" by (rule watermarks_ok_apply_op [OF Cons.prems(1) step])
  moreover have "IsCommitted (cur_snap m1) t"
    by (rule IsCommitted_stays_apply_op [OF Cons.prems(1) step Cons.prems(3) Cons.prems(4)])
  ultimately show ?case using rest Cons.prems(4) Cons.IH by blast
qed

text \<open>
  Claim C1. In any run of operations from a fresh manager in which \<^verbatim>\<open>CommitOp(t)\<close> has returned,
  the snapshot taken at the end of the run, after any further operations, has
  \<^verbatim>\<open>IsCommitted(t)\<close>: \<^verbatim>\<open>t\<close> is below \<^verbatim>\<open>all_committed_before\<close> or in the explicit committed set.
\<close>

theorem committed_op_stays_committed:
  assumes "run_ops (before @ OpCommit t # after) MvccManager_new = Inr m"
  shows "IsCommitted (TakeSnapshot m) t
         \<and> (t < all_committed_before (TakeSnapshot m)
            \<or> t \<in> set (committed_timestamps (TakeSnapshot m)))"
proof -
  from assms obtain m0 m1 where
    pre: "run_ops before MvccManager_new = Inr m0"
    and c: "CommitOp t m0 = Inr m1"
    and post: "run_ops after m1 = Inr m"
    by (auto simp: run_ops_append split: sum.splits)
  have ok0: "watermarks_ok m0" by (rule watermarks_ok_reachable [OF pre])
  have ok1: "watermarks_ok m1" by (rule watermarks_ok_CommitOp [OF ok0 c])
  from CommitOp_commits [OF ok0 c] have "IsCommitted (cur_snap m1) t" and "t \<noteq> kMin"
    by simp_all
  with ok1 post have "IsCommitted (cur_snap m) t"
    by (intro IsCommitted_stays_run_ops [of m1 after m t])
  then show ?thesis by (simp add: TakeSnapshot_def IsCommitted_iff)
qed

theorem committed_op_stays_committed_witness:
  "run_ops ([OpStart 1, OpStartApplying 1] @ OpCommit 1 #
            [OpStart 2, OpAdjustNewOpLowerBound 2, OpStartApplying 2, OpCommit 2,
             OpAdjustNewOpLowerBound 7, OpClose]) MvccManager_new
     = Inr \<lparr>cur_snap = \<lparr>all_committed_before = 7, none_committed_at_or_after = 7,
                          committed_timestamps = []\<rparr>,
            timestamps_in_flight = [], new_op_timestamp_exc_lower_bound = 7,
            earliest_in_flight = kMax, is_open = False, waiters = [], counted_down = []\<rparr>
   \<and> IsCommitted (TakeSnapshot
         \<lparr>cur_snap = \<lparr>all_committed_before = 7, none_committed_at_or_after = 7,
                          committed_timestamps = []\<rparr>,
            timestamps_in_flight = [], new_op_timestamp_exc_lower_bound = 7,
            earliest_in_flight = kMax, is_open = False, waiters = [], counted_down = []\<rparr>) 1"
proof -
  have run: "run_ops ([OpStart 1, OpStartApplying 1] @ OpCommit 1 #
            [OpStart 2, OpAdjustNewOpLowerBound 2, OpStartApplying 2, OpCommit 2,
             OpAdjustNewOpLowerBound 7, OpClose]) MvccManager_new
     = Inr \<lparr>cur_snap = \<lparr>all_committed_before = 7, none_committed_at_or_after = 7,
                          committed_timestamps = []\<rparr>,
            timestamps_in_flight = [], new_op_timestamp_exc_lower_bound = 7,
            earliest_in_flight = kMax, is_open = False, waiters = [], counted_down = []\<rparr>"
    by (simp add: mvcc_eval)
  from committed_op_stays_committed [OF run] run show ?thesis by simp
qed

section \<open>Commit and the clean timestamp\<close>

text \<open>
  Claim C7. \<^verbatim>\<open>CommitOp(t)\<close> leaves \<^verbatim>\<open>all_committed_before\<close> unchanged unless \<^verbatim>\<open>t\<close> was the cached
  earliest in-flight timestamp and the lower bound for new ops is at or above \<^verbatim>\<open>t\<close>; in particular
  a commit ahead of the lower bound does not move the clean timestamp.
\<close>

theorem CommitOp_keeps_clean_timestamp:
  assumes "CommitOp t m = Inr m'"
    and "earliest_in_flight m \<noteq> t \<or> new_op_timestamp_exc_lower_bound m < t"
  shows "GetCleanTimestamp m' = GetCleanTimestamp m"
proof -
  from CommitOp_Inr [OF assms(1)] obtain m2 where
    u: "CommitOpUnlocked t m = Inr (earliest_in_flight m = t, m2)"
    and m': "m' = (if earliest_in_flight m = t \<and> t \<le> new_op_timestamp_exc_lower_bound m2
                   then AdjustCleanTimeUnlocked m2 else m2)"
    by blast
  from CommitOpUnlocked_snap [OF u] have
    "all_committed_before (cur_snap m2) = all_committed_before (cur_snap m)"
    and "new_op_timestamp_exc_lower_bound m2 = new_op_timestamp_exc_lower_bound m"
    by simp_all
  with assms(2) m' show ?thesis by (auto simp: GetCleanTimestamp_def)
qed

text \<open>
  The spec's third scenario: an op at 50 started, applied and committed on a fresh manager leaves
  the clean timestamp at \<^verbatim>\<open>kInitialTimestamp\<close>, and 40 is not committed in the snapshot.
\<close>

theorem CommitOp_keeps_clean_timestamp_witness:
  "run_ops [OpStart 50, OpStartApplying 50] MvccManager_new
     = Inr \<lparr>cur_snap = \<lparr>all_committed_before = kInitialTimestamp,
                          none_committed_at_or_after = kInitialTimestamp,
                          committed_timestamps = []\<rparr>,
            timestamps_in_flight = [(50, APPLYING)], new_op_timestamp_exc_lower_bound = kMin,
            earliest_in_flight = 50, is_open = True, waiters = [], counted_down = []\<rparr>
   \<and> CommitOp 50
         \<lparr>cur_snap = \<lparr>all_committed_before = kInitialTimestamp,
                          none_committed_at_or_after = kInitialTimestamp,
                          committed_timestamps = []\<rparr>,
            timestamps_in_flight = [(50, APPLYING)], new_op_timestamp_exc_lower_bound = kMin,
            earliest_in_flight = 50, is_open = True, waiters = [], counted_down = []\<rparr>
     = Inr \<lparr>cur_snap = \<lparr>all_committed_before = kInitialTimestamp,
                          none_committed_at_or_after = 51,
                          committed_timestamps = [50]\<rparr>,
            timestamps_in_flight = [], new_op_timestamp_exc_lower_bound = kMin,
            earliest_in_flight = kMax, is_open = True, waiters = [], counted_down = []\<rparr>
   \<and> GetCleanTimestamp
         \<lparr>cur_snap = \<lparr>all_committed_before = kInitialTimestamp,
                          none_committed_at_or_after = 51,
                          committed_timestamps = [50]\<rparr>,
            timestamps_in_flight = [], new_op_timestamp_exc_lower_bound = kMin,
            earliest_in_flight = kMax, is_open = True, waiters = [], counted_down = []\<rparr>
       = kInitialTimestamp
   \<and> \<not> IsCommitted (TakeSnapshot
         \<lparr>cur_snap = \<lparr>all_committed_before = kInitialTimestamp,
                          none_committed_at_or_after = 51,
                          committed_timestamps = [50]\<rparr>,
            timestamps_in_flight = [], new_op_timestamp_exc_lower_bound = kMin,
            earliest_in_flight = kMax, is_open = True, waiters = [], counted_down = []\<rparr>) 40"
proof -
  have c: "CommitOp 50
         \<lparr>cur_snap = \<lparr>all_committed_before = kInitialTimestamp,
                          none_committed_at_or_after = kInitialTimestamp,
                          committed_timestamps = []\<rparr>,
            timestamps_in_flight = [(50, APPLYING)], new_op_timestamp_exc_lower_bound = kMin,
            earliest_in_flight = 50, is_open = True, waiters = [], counted_down = []\<rparr>
     = Inr \<lparr>cur_snap = \<lparr>all_committed_before = kInitialTimestamp,
                          none_committed_at_or_after = 51,
                          committed_timestamps = [50]\<rparr>,
            timestamps_in_flight = [], new_op_timestamp_exc_lower_bound = kMin,
            earliest_in_flight = kMax, is_open = True, waiters = [], counted_down = []\<rparr>"
    by (simp add: mvcc_eval)
  have ahead: "earliest_in_flight
         \<lparr>cur_snap = \<lparr>all_committed_before = kInitialTimestamp,
                          none_committed_at_or_after = kInitialTimestamp,
                          committed_timestamps = []\<rparr>,
            timestamps_in_flight = [(50, APPLYING)], new_op_timestamp_exc_lower_bound = kMin,
            earliest_in_flight = 50, is_open = True, waiters = [], counted_down = []\<rparr> \<noteq> 50
     \<or> new_op_timestamp_exc_lower_bound
         \<lparr>cur_snap = \<lparr>all_committed_before = kInitialTimestamp,
                          none_committed_at_or_after = kInitialTimestamp,
                          committed_timestamps = []\<rparr>,
            timestamps_in_flight = [(50, APPLYING)], new_op_timestamp_exc_lower_bound = kMin,
            earliest_in_flight = 50, is_open = True, waiters = [], counted_down = []\<rparr> < 50"
    by (simp add: kMin_def)
  have run: "run_ops [OpStart 50, OpStartApplying 50] MvccManager_new
     = Inr \<lparr>cur_snap = \<lparr>all_committed_before = kInitialTimestamp,
                          none_committed_at_or_after = kInitialTimestamp,
                          committed_timestamps = []\<rparr>,
            timestamps_in_flight = [(50, APPLYING)], new_op_timestamp_exc_lower_bound = kMin,
            earliest_in_flight = 50, is_open = True, waiters = [], counted_down = []\<rparr>"
    by (simp add: mvcc_eval)
  from CommitOp_keeps_clean_timestamp [OF c ahead] run c show ?thesis
    by (simp add: mvcc_eval)
qed

section \<open>Waiting\<close>

lemma AnyApplyingAtOrBefore_scan_iff:
  "AnyApplyingAtOrBefore_scan entries ts \<longleftrightarrow> (\<exists>entry \<in> set entries. fst entry \<le> ts)"
  by (induction entries) auto

text \<open>
  Claim C8. The \<^verbatim>\<open>NONE_APPLYING\<close> condition at \<^verbatim>\<open>T\<close> holds if and only if no entry of the in-flight
  table, in whichever state, has a timestamp at or before \<^verbatim>\<open>T\<close>.
\<close>

theorem NONE_APPLYING_checks_every_in_flight_entry:
  "IsDoneWaitingUnlocked m \<lparr>timestamp = T, latch = l, wait_for = NONE_APPLYING\<rparr>
     \<longleftrightarrow> (\<forall>(t, state) \<in> set (timestamps_in_flight m). \<not> t \<le> T)"
  by (auto simp: IsDoneWaitingUnlocked_def AnyApplyingAtOrBeforeUnlocked_def
                 AnyApplyingAtOrBefore_scan_iff)

text \<open>
  A \<^verbatim>\<open>RESERVED\<close> op at 3 keeps the condition at 3 unsatisfied although no op is applying; an
  op at 3 does not affect the condition at 2.
\<close>

theorem NONE_APPLYING_checks_every_in_flight_entry_witness:
  "\<not> IsDoneWaitingUnlocked (MvccManager_new\<lparr>timestamps_in_flight := [(3, RESERVED)],
                                              earliest_in_flight := 3\<rparr>)
        \<lparr>timestamp = 3, latch = 0, wait_for = NONE_APPLYING\<rparr>
   \<and> IsDoneWaitingUnlocked (MvccManager_new\<lparr>timestamps_in_flight := [(3, APPLYING)],
                                              earliest_in_flight := 3\<rparr>)
        \<lparr>timestamp = 2, latch = 0, wait_for = NONE_APPLYING\<rparr>"
  using NONE_APPLYING_checks_every_in_flight_entry
          [of "MvccManager_new\<lparr>timestamps_in_flight := [(3, RESERVED)],
                                earliest_in_flight := 3\<rparr>" 3 0]
        NONE_APPLYING_checks_every_in_flight_entry
          [of "MvccManager_new\<lparr>timestamps_in_flight := [(3, APPLYING)],
                                earliest_in_flight := 3\<rparr>" 2 0]
  by (simp add: MvccManager_new_def word_le_nat_alt)

text \<open>
  Claim C10. The destructor terminates the process exactly when a waiter is still on the list;
  \<^verbatim>\<open>Close\<close> drains the list, so a closed manager can be destroyed.
\<close>

theorem MvccManager_destroy_needs_no_waiters:
  "(waiters m \<noteq> [] \<longrightarrow> MvccManager_destroy m = Inl WaitersNotEmpty)
   \<and> (waiters m = [] \<longrightarrow> MvccManager_destroy m = Inr ())
   \<and> waiters (Close m) = []
   \<and> MvccManager_destroy (Close m) = Inr ()"
  by (simp add: MvccManager_destroy_def Close_def)

text \<open>
  A waiter for \<^verbatim>\<open>NONE_APPLYING\<close> at 3 is enqueued while an op at 3 is applying. Destroying the
  manager then is fatal. The waiter leaves the list when the op commits and the clean time is
  recomputed, when its deadline passes, or when the manager is closed.
\<close>

theorem MvccManager_destroy_needs_no_waiters_witness:
  "WaitUntil_enter NONE_APPLYING 3 0
       (MvccManager_new\<lparr>timestamps_in_flight := [(3, APPLYING)], earliest_in_flight := 3,
                         new_op_timestamp_exc_lower_bound := 3\<rparr>)
     = (None, MvccManager_new\<lparr>timestamps_in_flight := [(3, APPLYING)], earliest_in_flight := 3,
                               new_op_timestamp_exc_lower_bound := 3,
                               waiters := [\<lparr>timestamp = 3, latch = 0, wait_for = NONE_APPLYING\<rparr>]\<rparr>)
   \<and> MvccManager_destroy
       (MvccManager_new\<lparr>timestamps_in_flight := [(3, APPLYING)], earliest_in_flight := 3,
                         new_op_timestamp_exc_lower_bound := 3,
                         waiters := [\<lparr>timestamp = 3, latch = 0, wait_for = NONE_APPLYING\<rparr>]\<rparr>)
     = Inl WaitersNotEmpty
   \<and> MvccManager_destroy MvccManager_new = Inr ()
   \<and> MvccManager_destroy (Close
       (MvccManager_new\<lparr>timestamps_in_flight := [(3, APPLYING)], earliest_in_flight := 3,
                         new_op_timestamp_exc_lower_bound := 3,
                         waiters := [\<lparr>timestamp = 3, latch = 0, wait_for = NONE_APPLYING\<rparr>]\<rparr>))
     = Inr ()
   \<and> MvccManager_destroy (snd (WaitUntil_deadline NONE_APPLYING 3 0
       (MvccManager_new\<lparr>timestamps_in_flight := [(3, APPLYING)], earliest_in_flight := 3,
                         new_op_timestamp_exc_lower_bound := 3,
                         waiters := [\<lparr>timestamp = 3, latch = 0, wait_for = NONE_APPLYING\<rparr>]\<rparr>)))
     = Inr ()
   \<and> CommitOp 3
       (MvccManager_new\<lparr>timestamps_in_flight := [(3, APPLYING)], earliest_in_flight := 3,
                         new_op_timestamp_exc_lower_bound := 3,
                         waiters := [\<lparr>timestamp = 3, latch = 0, wait_for = NONE_APPLYING\<rparr>]\<rparr>)
     = Inr \<lparr>cur_snap = \<lparr>all_committed_before = 3, none_committed_at_or_after = 4,
                          committed_timestamps = [3]\<rparr>,
            timestamps_in_flight = [], new_op_timestamp_exc_lower_bound = 3,
            earliest_in_flight = kMax, is_open = True, waiters = [], counted_down = [0]\<rparr>"
proof -
  have commit: "CommitOp 3
       (MvccManager_new\<lparr>timestamps_in_flight := [(3, APPLYING)], earliest_in_flight := 3,
                         new_op_timestamp_exc_lower_bound := 3,
                         waiters := [\<lparr>timestamp = 3, latch = 0, wait_for = NONE_APPLYING\<rparr>]\<rparr>)
     = Inr \<lparr>cur_snap = \<lparr>all_committed_before = 3, none_committed_at_or_after = 4,
                          committed_timestamps = [3]\<rparr>,
            timestamps_in_flight = [], new_op_timestamp_exc_lower_bound = 3,
            earliest_in_flight = kMax, is_open = True, waiters = [], counted_down = [0]\<rparr>"
    by (simp add: mvcc_eval IsDoneWaitingUnlocked_def AnyApplyingAtOrBeforeUnlocked_def)
  from commit
       MvccManager_destroy_needs_no_waiters
          [of "MvccManager_new\<lparr>timestamps_in_flight := [(3, APPLYING)], earliest_in_flight := 3,
                               new_op_timestamp_exc_lower_bound := 3,
                               waiters := [\<lparr>timestamp = 3, latch = 0, wait_for = NONE_APPLYING\<rparr>]\<rparr>"]
       MvccManager_destroy_needs_no_waiters [of MvccManager_new]
  show ?thesis
    by (simp add: WaitUntil_enter_def WaitUntil_deadline_def CheckOpen_def
                  IsDoneWaitingUnlocked_def AnyApplyingAtOrBeforeUnlocked_def
                  MvccManager_new_def MvccManager_destroy_def)
qed

section \<open>Aborting on a closed manager\<close>

text \<open>
  Claim C6 as stated does not hold: \<^verbatim>\<open>AbortOp\<close> removes the timestamp from the in-flight table
  before it looks at \<^verbatim>\<open>open_\<close>, and the removal is fatal for a timestamp that is not in the table.
\<close>

theorem AbortOp_closed_absent_counterexample:
  "\<not> is_open (Close MvccManager_new)
   \<and> map_of (timestamps_in_flight (Close MvccManager_new)) 5 = None
   \<and> AbortOp 5 (Close MvccManager_new) = Inl NotInFlight"
  by (simp add: mvcc_eval)

text \<open>
  Claim C6, amended. \<^verbatim>\<open>AbortOp(t)\<close> is fatal whenever \<^verbatim>\<open>t\<close> is not in the in-flight table, whether the
  manager is open or closed. On a closed manager, when \<^verbatim>\<open>t\<close> is in the table, \<^verbatim>\<open>AbortOp(t)\<close> removes
  it and returns, whatever the state of the op (\<^verbatim>\<open>RESERVED\<close> or \<^verbatim>\<open>APPLYING\<close>).
\<close>

theorem AbortOp_closed:
  "(map_of (timestamps_in_flight m) t = None \<longrightarrow> AbortOp t m = Inl NotInFlight)
   \<and> (\<not> is_open m \<longrightarrow>
        AbortOp t m =
          (case map_of (timestamps_in_flight m) t of
             None \<Rightarrow> Inl NotInFlight
           | Some state \<Rightarrow>
               Inr (m\<lparr>timestamps_in_flight := AList.delete t (timestamps_in_flight m)\<rparr>)))"
  by (simp add: AbortOp_def RemoveInFlightAndGetStateUnlocked_def split: option.splits)

text \<open>
  An absent timestamp is fatal on the fresh, open manager and on a closed one; on a closed
  manager an \<^verbatim>\<open>APPLYING\<close> op at 3 and a \<^verbatim>\<open>RESERVED\<close> op at 4 are both removed.
\<close>

theorem AbortOp_closed_witness:
  "is_open MvccManager_new
   \<and> AbortOp 5 MvccManager_new = Inl NotInFlight
   \<and> \<not> is_open (Close (MvccManager_new\<lparr>timestamps_in_flight := [(3, APPLYING), (4, RESERVED)],
                                       earliest_in_flight := 3\<rparr>))
   \<and> AbortOp 5 (Close (MvccManager_new\<lparr>timestamps_in_flight := [(3, APPLYING), (4, RESERVED)],
                                         earliest_in_flight := 3\<rparr>))
       = Inl NotInFlight
   \<and> AbortOp 3 (Close (MvccManager_new\<lparr>timestamps_in_flight := [(3, APPLYING), (4, RESERVED)],
                                         earliest_in_flight := 3\<rparr>))
       = Inr (Close (MvccManager_new\<lparr>timestamps_in_flight := [(4, RESERVED)],
                                      earliest_in_flight := 3\<rparr>))
   \<and> AbortOp 4 (Close (MvccManager_new\<lparr>timestamps_in_flight := [(3, APPLYING), (4, RESERVED)],
                                         earliest_in_flight := 3\<rparr>))
       = Inr (Close (MvccManager_new\<lparr>timestamps_in_flight := [(3, APPLYING)],
                                      earliest_in_flight := 3\<rparr>))"
  using AbortOp_closed [of MvccManager_new 5]
        AbortOp_closed [of "Close (MvccManager_new\<lparr>timestamps_in_flight := [(3, APPLYING), (4, RESERVED)],
                                                 earliest_in_flight := 3\<rparr>)" 5]
        AbortOp_closed [of "Close (MvccManager_new\<lparr>timestamps_in_flight := [(3, APPLYING), (4, RESERVED)],
                                                 earliest_in_flight := 3\<rparr>)" 3]
        AbortOp_closed [of "Close (MvccManager_new\<lparr>timestamps_in_flight := [(3, APPLYING), (4, RESERVED)],
                                                 earliest_in_flight := 3\<rparr>)" 4]
  by (simp add: Close_def MvccManager_new_def)

section \<open>The order of the snapshot's watermarks\<close>

text \<open>
  Claim C3. The live snapshot should keep \<^verbatim>\<open>all_committed_before\<close> at most
  \<^verbatim>\<open>none_committed_at_or_after\<close> and every explicit value between them. Committing an op at
  \<^verbatim>\<open>kMax\<close> breaks this: \<^verbatim>\<open>AddCommittedTimestamp\<close> computes \<^verbatim>\<open>timestamp.value() + 1\<close>, which wraps to 0,
  so the upper watermark ends below the lower one and below the committed value.
\<close>

theorem commit_at_kMax_wraps_upper_watermark:
  "run_ops [OpStart kMax, OpStartApplying kMax, OpCommit kMax] MvccManager_new
     = Inr \<lparr>cur_snap = \<lparr>all_committed_before = 1, none_committed_at_or_after = 0,
                          committed_timestamps = [kMax]\<rparr>,
            timestamps_in_flight = [], new_op_timestamp_exc_lower_bound = kMin,
            earliest_in_flight = kMax, is_open = True, waiters = [], counted_down = []\<rparr>
   \<and> \<not> (1 :: val_type) \<le> 0
   \<and> \<not> kMax < (0 :: val_type)"
  by (simp add: mvcc_eval)

text \<open>In every run that does not commit an op at \<^verbatim>\<open>kMax\<close> the order holds.\<close>

lemma word_less_succ: "(t :: val_type) \<noteq> kMax \<Longrightarrow> t < t + 1"
  unfolding kMax_def
  by (metis inc_less_eq_triv_imp linorder_less_linear word_le_less_eq)

lemma snapshot_ok_AddCommittedTimestamp:
  assumes "snapshot_ok snap" and "t \<noteq> kMax"
  shows "snapshot_ok (AddCommittedTimestamp snap t)"
proof (cases "IsCommitted snap t")
  case True
  with assms show ?thesis by (simp add: AddCommittedTimestamp_def)
next
  case False
  then have low: "all_committed_before snap \<le> t" by (simp add: IsCommitted_iff not_less)
  have up: "t < t + 1" by (rule word_less_succ [OF assms(2)])
  show ?thesis
  proof (cases "none_committed_at_or_after snap \<le> t")
    case True
    with assms(1) low up False show ?thesis
      unfolding snapshot_ok_def by (auto simp: AddCommittedTimestamp_def Let_def)
  next
    case False
    with assms(1) low \<open>\<not> IsCommitted snap t\<close> show ?thesis
      unfolding snapshot_ok_def by (auto simp: AddCommittedTimestamp_def Let_def)
  qed
qed

lemma snapshot_ok_AdjustCleanTimeUnlocked:
  assumes "snapshot_ok (cur_snap m)"
  shows "snapshot_ok (cur_snap (AdjustCleanTimeUnlocked m))"
proof -
  define acb where
    "acb = (if earliest_in_flight m < new_op_timestamp_exc_lower_bound m
            then earliest_in_flight m else new_op_timestamp_exc_lower_bound m)"
  define kept where "kept = filter (\<lambda>ts. acb \<le> ts) (committed_timestamps (cur_snap m))"
  have snap: "cur_snap (AdjustCleanTimeUnlocked m) =
                \<lparr>all_committed_before = acb,
                 none_committed_at_or_after =
                   (if kept = [] then acb else none_committed_at_or_after (cur_snap m)),
                 committed_timestamps = kept\<rparr>"
    unfolding acb_def kept_def by (simp add: AdjustCleanTimeUnlocked_cur_snap Let_def)
  have kept_bounds: "acb \<le> v \<and> v < none_committed_at_or_after (cur_snap m)"
    if "v \<in> set kept" for v
    using that assms unfolding kept_def snapshot_ok_def by simp
  show ?thesis
  proof (cases "kept = []")
    case True
    then show ?thesis unfolding snap snapshot_ok_def by simp
  next
    case False
    then obtain v where v: "v \<in> set kept" by (cases kept) auto
    from kept_bounds [OF v] have "acb \<le> none_committed_at_or_after (cur_snap m)"
      by (auto intro: order.trans less_imp_le)
    with False kept_bounds show ?thesis unfolding snap snapshot_ok_def by simp
  qed
qed

lemma snapshot_ok_apply_op:
  assumes ok: "snapshot_ok (cur_snap m)" and step: "apply_op x m = Inr m'"
    and nmax: "x \<noteq> OpCommit kMax"
  shows "snapshot_ok (cur_snap m')"
proof (cases x)
  case (OpStart t)
  with step ok show ?thesis by (simp add: cur_snap_StartOp)
next
  case (OpStartApplying t)
  with step ok show ?thesis by (simp add: cur_snap_StartApplyingOp)
next
  case (OpCommit t)
  with step have c: "CommitOp t m = Inr m'" by simp
  from OpCommit nmax have t: "t \<noteq> kMax" by simp
  from CommitOp_Inr [OF c] obtain m2 where
    u: "CommitOpUnlocked t m = Inr (earliest_in_flight m = t, m2)"
    and m': "m' = (if earliest_in_flight m = t \<and> t \<le> new_op_timestamp_exc_lower_bound m2
                   then AdjustCleanTimeUnlocked m2 else m2)"
    by blast
  have "snapshot_ok (cur_snap m2)"
    using CommitOpUnlocked_snap [OF u] snapshot_ok_AddCommittedTimestamp [OF ok t] by simp
  then show ?thesis unfolding m' by (simp add: snapshot_ok_AdjustCleanTimeUnlocked)
next
  case (OpAbort t)
  with step ok show ?thesis by (simp add: cur_snap_AbortOp)
next
  case (OpAdjustNewOpLowerBound t)
  with step have m': "m' = AdjustNewOpLowerBound t m" by auto
  have "snapshot_ok (cur_snap (AdjustCleanTimeUnlocked (m\<lparr>new_op_timestamp_exc_lower_bound := t\<rparr>)))"
    using ok by (simp add: snapshot_ok_AdjustCleanTimeUnlocked)
  with ok show ?thesis unfolding m' by (simp add: AdjustNewOpLowerBound_def)
next
  case OpClose
  with step ok show ?thesis by (auto simp: cur_snap_Close)
qed

lemma snapshot_ok_run_ops:
  "snapshot_ok (cur_snap m) \<Longrightarrow> run_ops xs m = Inr m' \<Longrightarrow> OpCommit kMax \<notin> set xs
     \<Longrightarrow> snapshot_ok (cur_snap m')"
proof (induction xs arbitrary: m)
  case Nil
  then show ?case by simp
next
  case (Cons x xs)
  from Cons.prems(2) obtain m1 where
    step: "apply_op x m = Inr m1" and rest: "run_ops xs m1 = Inr m'"
    by (auto split: sum.splits)
  from Cons.prems(3) have head: "x \<noteq> OpCommit kMax" and tail: "OpCommit kMax \<notin> set xs"
    by auto
  from Cons.prems(1) step head have "snapshot_ok (cur_snap m1)" by (rule snapshot_ok_apply_op)
  then show ?case using rest tail by (rule Cons.IH)
qed

lemma snapshot_ok_below_kMax:
  "run_ops xs MvccManager_new = Inr m \<Longrightarrow> OpCommit kMax \<notin> set xs \<Longrightarrow> snapshot_ok (cur_snap m)"
  by (rule snapshot_ok_run_ops [of MvccManager_new])
     (simp_all add: snapshot_ok_def MvccManager_new_def MvccSnapshot_at_def)

section \<open>The cached minimum of the in-flight table\<close>

text \<open>
  Claim C5. After every state change the cached \<^verbatim>\<open>earliest_in_flight\<close> should be the least key of
  the in-flight table, or \<^verbatim>\<open>kMax\<close> when the table is empty. \<^verbatim>\<open>AbortOp\<close> on a closed manager
  removes the entry and returns before the cache is refreshed: aborting the earliest of two ops
  leaves the cache at the removed timestamp, and aborting the only op leaves it at that
  timestamp instead of \<^verbatim>\<open>kMax\<close> (the end of \<^verbatim>\<open>TestScopedOp\<close>).
\<close>

theorem closed_abort_leaves_stale_earliest_in_flight:
  "run_ops [OpStart 1, OpStart 2, OpClose, OpAbort 1] MvccManager_new
     = Inr \<lparr>cur_snap = \<lparr>all_committed_before = 1, none_committed_at_or_after = 1,
                          committed_timestamps = []\<rparr>,
            timestamps_in_flight = [(2, RESERVED)], new_op_timestamp_exc_lower_bound = kMin,
            earliest_in_flight = 1, is_open = False, waiters = [], counted_down = []\<rparr>
   \<and> Min (fst ` set [(2 :: val_type, RESERVED)]) = 2
   \<and> (1 :: val_type) \<noteq> 2
   \<and> run_ops [OpClose, OpStart 3, OpStartApplying 3, OpAbort 3] MvccManager_new
     = Inr \<lparr>cur_snap = \<lparr>all_committed_before = 1, none_committed_at_or_after = 1,
                          committed_timestamps = []\<rparr>,
            timestamps_in_flight = [], new_op_timestamp_exc_lower_bound = kMin,
            earliest_in_flight = 3, is_open = False, waiters = [], counted_down = []\<rparr>
   \<and> (3 :: val_type) \<noteq> kMax"
  by (simp add: mvcc_eval)

text \<open>Every other operation, and \<^verbatim>\<open>AbortOp\<close> on an open manager, keeps the cache exact.\<close>

lemma AdvanceEarliest_exact: "earliest_exact (AdvanceEarliestInFlightTimestamp m)"
proof (cases "timestamps_in_flight m = []")
  case True
  then show ?thesis
    by (simp add: earliest_exact_def AdvanceEarliestInFlightTimestamp_def)
next
  case False
  with AdvanceEarliest_cases [of m] have
    mem: "earliest_in_flight (AdvanceEarliestInFlightTimestamp m)
            \<in> fst ` set (timestamps_in_flight m)"
    by simp
  have "Min (fst ` set (timestamps_in_flight m))
          = earliest_in_flight (AdvanceEarliestInFlightTimestamp m)"
    by (rule Min_eqI) (auto intro: AdvanceEarliest_lower mem)
  with False show ?thesis by (simp add: earliest_exact_def)
qed

lemma delete_Nil_iff: "AList.delete t xs = [] \<longleftrightarrow> fst ` set xs \<subseteq> {t}"
  by (induction xs) auto

lemma earliest_exact_remove_other:
  assumes ex: "earliest_exact m" and ne: "earliest_in_flight m \<noteq> t"
    and mem: "t \<in> fst ` set (timestamps_in_flight m)"
  shows "earliest_exact (m\<lparr>timestamps_in_flight := AList.delete t (timestamps_in_flight m)\<rparr>)"
proof -
  let ?K = "fst ` set (timestamps_in_flight m)"
  from mem have nonempty: "timestamps_in_flight m \<noteq> []" by auto
  with ex have e: "earliest_in_flight m = Min ?K" by (simp add: earliest_exact_def)
  have fin: "finite ?K" by simp
  from mem have "?K \<noteq> {}" by auto
  with fin have minmem: "Min ?K \<in> ?K" by (rule Min_in)
  with e ne have rest: "Min ?K \<in> ?K - {t}" by auto
  then have "\<not> ?K \<subseteq> {t}" by auto
  then have notnil: "AList.delete t (timestamps_in_flight m) \<noteq> []"
    by (simp add: delete_Nil_iff)
  have "Min (?K - {t}) = Min ?K"
    by (rule Min_eqI) (use rest fin in auto)
  with notnil e show ?thesis by (simp add: earliest_exact_def keys_delete)
qed

lemma earliest_exact_apply_op:
  assumes ex: "earliest_exact m" and step: "apply_op x m = Inr m'"
    and open_abort: "\<And>t. x = OpAbort t \<Longrightarrow> is_open m"
  shows "earliest_exact m'"
proof (cases x)
  case (OpStart t)
  with step have s: "StartOp t m = Inr m'" by simp
  from StartOp_Inr [OF s] have
    m': "m' = m\<lparr>earliest_in_flight := (if t < earliest_in_flight m then t else earliest_in_flight m),
              timestamps_in_flight := timestamps_in_flight m @ [(t, RESERVED)]\<rparr>"
    by simp
  show ?thesis
  proof (cases "timestamps_in_flight m = []")
    case True
    with ex have "earliest_in_flight m = kMax" by (simp add: earliest_exact_def)
    moreover have "\<not> t < kMax \<Longrightarrow> t = kMax"
      using le_kMax [of t] by (simp add: not_less)
    ultimately show ?thesis using True unfolding m' earliest_exact_def
      by auto
  next
    case False
    let ?K = "fst ` set (timestamps_in_flight m)"
    from False have ne: "?K \<noteq> {}" by simp
    from False ex have e: "earliest_in_flight m = Min ?K" by (simp add: earliest_exact_def)
    have "Min (insert t ?K) = min t (Min ?K)"
      using ne by (intro Min_insert) simp_all
    also have "\<dots> = (if t < Min ?K then t else Min ?K)" by (auto simp: min_def)
    finally have "Min (fst ` set (timestamps_in_flight m @ [(t, RESERVED)]))
                    = (if t < earliest_in_flight m then t else earliest_in_flight m)"
      unfolding e by simp
    then show ?thesis unfolding m' earliest_exact_def by simp
  qed
next
  case (OpStartApplying t)
  with step have s: "StartApplyingOp t m = Inr m'" by simp
  from StartApplyingOp_Inr [OF s] have
    present: "map_of (timestamps_in_flight m) t = Some RESERVED"
    and m': "m' = m\<lparr>timestamps_in_flight := AList.update t APPLYING (timestamps_in_flight m)\<rparr>"
    by simp_all
  from present have "timestamps_in_flight m \<noteq> []" by auto
  moreover have "AList.update t APPLYING (timestamps_in_flight m) \<noteq> []"
    by (cases "timestamps_in_flight m") auto
  ultimately show ?thesis
    using ex keys_update_present [OF present, of APPLYING]
    unfolding m' earliest_exact_def by simp
next
  case (OpCommit t)
  with step have c: "CommitOp t m = Inr m'" by simp
  from CommitOp_Inr [OF c] obtain m2 where
    u: "CommitOpUnlocked t m = Inr (earliest_in_flight m = t, m2)"
    and m': "m' = (if earliest_in_flight m = t \<and> t \<le> new_op_timestamp_exc_lower_bound m2
                   then AdjustCleanTimeUnlocked m2 else m2)"
    by blast
  let ?m1 = "m\<lparr>timestamps_in_flight := AList.delete t (timestamps_in_flight m),
               cur_snap := AddCommittedTimestamp (cur_snap m) t\<rparr>"
  from CommitOpUnlocked_Inr [OF u] have
    present: "map_of (timestamps_in_flight m) t = Some APPLYING"
    and m2: "m2 = (if earliest_in_flight m = t then AdvanceEarliestInFlightTimestamp ?m1 else ?m1)"
    by (simp_all add: Let_def)
  have "earliest_exact m2"
  proof (cases "earliest_in_flight m = t")
    case True
    with m2 show ?thesis by (simp add: AdvanceEarliest_exact)
  next
    case False
    from earliest_exact_remove_other [OF ex False map_of_Some_key [OF present]]
    have "earliest_exact ?m1" by (simp add: earliest_exact_def)
    with False m2 show ?thesis by simp
  qed
  then show ?thesis unfolding m' by (simp add: earliest_exact_def)
next
  case (OpAbort t)
  with step have a: "AbortOp t m = Inr m'" by simp
  from OpAbort have op: "is_open m" by (rule open_abort)
  let ?m1 = "m\<lparr>timestamps_in_flight := AList.delete t (timestamps_in_flight m)\<rparr>"
  from AbortOp_Inr [OF a] op obtain st where
    present: "map_of (timestamps_in_flight m) t = Some st"
    and m': "m' = (if earliest_in_flight m = t then AdvanceEarliestInFlightTimestamp ?m1 else ?m1)"
    by (auto simp: Let_def)
  show ?thesis
  proof (cases "earliest_in_flight m = t")
    case True
    with m' show ?thesis by (simp add: AdvanceEarliest_exact)
  next
    case False
    with m' earliest_exact_remove_other [OF ex False map_of_Some_key [OF present]]
    show ?thesis by simp
  qed
next
  case (OpAdjustNewOpLowerBound t)
  with step have "m' = AdjustNewOpLowerBound t m" by auto
  with ex show ?thesis by (simp add: earliest_exact_def AdjustNewOpLowerBound_def)
next
  case OpClose
  with step ex show ?thesis by (auto simp: earliest_exact_def Close_def)
qed

section \<open>Beginning a transaction\<close>

text \<open>
  Claim C9 as stated does not hold: \<^verbatim>\<open>highest_txn_id_\<close> is assigned under the lock before the
  write to the status tablet, and a failed write returns without restoring it.
\<close>

theorem BeginTransaction_failed_write_counterexample:
  "BeginTransaction 5 ''alice'' IOError TxnStatusManager_new
     = Inr (IOError, TxnStatusManager_new\<lparr>highest_txn_id := 5\<rparr>)
   \<and> highest_txn_id TxnStatusManager_new = - 1
   \<and> highest_txn_id (TxnStatusManager_new\<lparr>highest_txn_id := 5\<rparr>) = 5
   \<and> TxnStatusManager_new\<lparr>highest_txn_id := 5\<rparr> \<noteq> TxnStatusManager_new"
proof -
  have "highest_txn_id (TxnStatusManager_new\<lparr>highest_txn_id := 5\<rparr>)
          \<noteq> highest_txn_id TxnStatusManager_new"
    by (simp add: TxnStatusManager_new_def)
  then have "TxnStatusManager_new\<lparr>highest_txn_id := 5\<rparr> \<noteq> TxnStatusManager_new"
    by metis
  then show ?thesis
    by (simp add: BeginTransaction_def AddNewTransaction_def TxnStatusManager_new_def
                  word_sle_eq)
qed

text \<open>
  Claim C9, amended. \<^verbatim>\<open>BeginTransaction\<close> returns OK only when the identifier is above
  \<^verbatim>\<open>highest_txn_id_\<close> and the write succeeded; it then has advanced \<^verbatim>\<open>highest_txn_id_\<close> to the
  identifier, persisted an \<^verbatim>\<open>OPEN\<close> entry and put an \<^verbatim>\<open>OPEN\<close> entry into the map. When it returns
  an error, the map and the status tablet are unchanged; \<^verbatim>\<open>highest_txn_id_\<close> is unchanged if the
  identifier was rejected, and stays advanced to the identifier if the write failed.
\<close>

theorem BeginTransaction_outcomes:
  assumes "BeginTransaction txn_id user outcome mgr = Inr (s, mgr')"
  shows "(s = OK \<longrightarrow>
            word_sless (highest_txn_id mgr) txn_id
            \<and> outcome = OK
            \<and> highest_txn_id mgr' = txn_id
            \<and> txns_by_id mgr' = (txns_by_id mgr)
                 (txn_id \<mapsto> \<lparr>entry_txn_id = txn_id, entry_user = user, entry_state = OPEN\<rparr>)
            \<and> status_tablet mgr' = status_tablet mgr @ [(txn_id, user, OPEN)])
       \<and> (s \<noteq> OK \<longrightarrow>
            txns_by_id mgr' = txns_by_id mgr
            \<and> status_tablet mgr' = status_tablet mgr
            \<and> (word_sle txn_id (highest_txn_id mgr) \<longrightarrow> s = InvalidArgument \<and> mgr' = mgr)
            \<and> (word_sless (highest_txn_id mgr) txn_id \<longrightarrow>
                  s = outcome \<and> highest_txn_id mgr' = txn_id))"
  using assms
  by (auto simp: BeginTransaction_def AddNewTransaction_def Let_def signed.not_le
           split: if_splits option.splits)

theorem BeginTransaction_outcomes_witness:
  "BeginTransaction 5 ''alice'' OK TxnStatusManager_new
     = Inr (OK, \<lparr>highest_txn_id = 5,
                 txns_by_id = [5 \<mapsto> \<lparr>entry_txn_id = 5, entry_user = ''alice'', entry_state = OPEN\<rparr>],
                 status_tablet = [(5, ''alice'', OPEN)]\<rparr>)
   \<and> word_sless (highest_txn_id TxnStatusManager_new) 5
   \<and> BeginTransaction 7 ''bob'' IOError TxnStatusManager_new
     = Inr (IOError, \<lparr>highest_txn_id = 7, txns_by_id = Map.empty, status_tablet = []\<rparr>)
   \<and> BeginTransaction 7 ''bob'' OK
        \<lparr>highest_txn_id = 7, txns_by_id = Map.empty, status_tablet = []\<rparr>
     = Inr (InvalidArgument, \<lparr>highest_txn_id = 7, txns_by_id = Map.empty, status_tablet = []\<rparr>)"
proof -
  have a: "BeginTransaction 5 ''alice'' OK TxnStatusManager_new
     = Inr (OK, \<lparr>highest_txn_id = 5,
                 txns_by_id = [5 \<mapsto> \<lparr>entry_txn_id = 5, entry_user = ''alice'', entry_state = OPEN\<rparr>],
                 status_tablet = [(5, ''alice'', OPEN)]\<rparr>)"
    by (simp add: BeginTransaction_def AddNewTransaction_def TxnStatusManager_new_def word_sle_eq)
  have b: "BeginTransaction 7 ''bob'' IOError TxnStatusManager_new
     = Inr (IOError, \<lparr>highest_txn_id = 7, txns_by_id = Map.empty, status_tablet = []\<rparr>)"
    by (simp add: BeginTransaction_def AddNewTransaction_def TxnStatusManager_new_def word_sle_eq)
  have c: "BeginTransaction 7 ''bob'' OK
        \<lparr>highest_txn_id = 7, txns_by_id = Map.empty, status_tablet = []\<rparr>
     = Inr (InvalidArgument, \<lparr>highest_txn_id = 7, txns_by_id = Map.empty, status_tablet = []\<rparr>)"
    by (simp add: BeginTransaction_def)
  from BeginTransaction_outcomes [OF a] BeginTransaction_outcomes [OF b]
       BeginTransaction_outcomes [OF c] a b c
  show ?thesis by simp
qed

end
